theory Spec2Isabelle
  imports Main "HOL-Library.Word"
begin

section \<open>Values and errors\<close>

text \<open>
  The error values of the package: \<open>ForeignKeyError{Message, Constraint}\<close>,
  \<open>DuplicatedKeyError{Message, Index}\<close>, \<open>BindError{Field, Message}\<close>, and every other
  error (\<open>fmt.Errorf\<close>, \<open>errors.Errorf\<close>, driver and runtime errors), kept by its message.
  Every \<open>panic\<close> of the functions embedded below carries such an error value, so a panic
  is the left injection of a sum, together with the state the panic leaves behind where
  a caller recovers it.
\<close>

datatype go_error =
    ForeignKeyError string string
  | DuplicatedKeyError string string
  | BindError string string
  | Errorf string

text \<open>
  The canonical column value a bind setter returns (\<open>any\<close> holding \<open>nil\<close>, a string,
  a \<open>uint64\<close>, an \<open>int64\<close> or a \<open>bool\<close>). Go's \<open>==\<close> on two such interface values
  compares the dynamic type and the value, which is equality of this datatype.
\<close>

datatype dbval = DNil | DString string | DUint64 "64 word" | DInt64 "64 word" | DBool bool

section \<open>The flusher: tracking\<close>

text \<open>
  \<open>type flusher struct\<close>. Entities are pointers, here of any type \<open>'e\<close>. A nil slice or
  map is the empty list. \<open>trackedEntitiesCounter\<close> is a Go \<open>int\<close>; it only ever counts up
  by one from zero, far from the 64-bit bound, so it is an \<open>int\<close> here. The fields
  \<open>engine\<close>, \<open>mutex\<close>, \<open>redisFlusher\<close> and \<open>lazyMap\<close> are read and written by \<open>flush\<close>
  only and belong to the world \<open>'w\<close> that \<open>flush\<close> works on.
\<close>

record 'e flusher =
  trackedEntities :: "'e list"
  trackedEntitiesCounter :: int
  updateSQLs :: "(string \<times> string list) list"
  deleteBinds :: "(string \<times> (64 word \<times> 'e) list) list"
  localCacheDeletes :: "(string \<times> string list) list"
  localCacheSets :: "(string \<times> string list) list"

definition NewFlusher :: "'e flusher" where
  "NewFlusher = \<lparr>trackedEntities = [], trackedEntitiesCounter = 0, updateSQLs = [],
     deleteBinds = [], localCacheDeletes = [], localCacheSets = []\<rparr>"

text \<open>
  \<open>flusher.Track\<close>: the entity is appended and counted first, then the counter is compared
  with 10001; the panic leaves the flusher as it is at that moment. \<open>initIfNeeded\<close>
  prepares the entity's own metadata and does not touch the flusher.
\<close>

fun Track :: "'e flusher \<Rightarrow> 'e list \<Rightarrow> (go_error \<times> 'e flusher) + 'e flusher" where
  "Track f [] = Inr f"
| "Track f (entity # rest) =
     (let f1 = f\<lparr>trackedEntities := trackedEntities f @ [entity]\<rparr>;
          f2 = f1\<lparr>trackedEntitiesCounter := trackedEntitiesCounter f1 + 1\<rparr>
      in if trackedEntitiesCounter f2 = 10001
         then Inl (Errorf ''track limit 10000 exceeded'', f2)
         else Track f2 rest)"

text \<open>
  \<open>flusher.Delete\<close> and \<open>flusher.ForceDelete\<close> mark every entity (\<open>markToDelete\<close>,
  \<open>forceMarkToDelete\<close>: a write to the entity, given here as the function \<open>mark\<close> on the
  entity store \<open>'s\<close>) and then call \<open>Track\<close> with the same entities.
\<close>

definition Delete ::
  "('e \<Rightarrow> 's \<Rightarrow> 's) \<Rightarrow> 's \<times> 'e flusher \<Rightarrow> 'e list \<Rightarrow> (go_error \<times> 's \<times> 'e flusher) + 's \<times> 'e flusher" where
  "Delete markToDelete sf entity =
     (let s' = fold markToDelete entity (fst sf)
      in case Track (snd sf) entity of
           Inl (e, f') \<Rightarrow> Inl (e, (s', f'))
         | Inr f' \<Rightarrow> Inr (s', f'))"

definition ForceDelete ::
  "('e \<Rightarrow> 's \<Rightarrow> 's) \<Rightarrow> 's \<times> 'e flusher \<Rightarrow> 'e list \<Rightarrow> (go_error \<times> 's \<times> 'e flusher) + 's \<times> 'e flusher" where
  "ForceDelete forceMarkToDelete sf entity =
     (let s' = fold forceMarkToDelete entity (fst sf)
      in case Track (snd sf) entity of
           Inl (e, f') \<Rightarrow> Inl (e, (s', f'))
         | Inr f' \<Rightarrow> Inr (s', f'))"

text \<open>
  A sequence of calls on one flusher, run until the first panic.
\<close>

datatype 'e track_call = CallTrack "'e list" | CallDelete "'e list" | CallForceDelete "'e list"

fun call_entities :: "'e track_call \<Rightarrow> 'e list" where
  "call_entities (CallTrack es) = es"
| "call_entities (CallDelete es) = es"
| "call_entities (CallForceDelete es) = es"

fun run_call ::
  "('e \<Rightarrow> 's \<Rightarrow> 's) \<Rightarrow> ('e \<Rightarrow> 's \<Rightarrow> 's) \<Rightarrow> 's \<times> 'e flusher \<Rightarrow> 'e track_call \<Rightarrow>
     (go_error \<times> 's \<times> 'e flusher) + 's \<times> 'e flusher" where
  "run_call md mf sf (CallTrack es) =
     (case Track (snd sf) es of Inl (e, f') \<Rightarrow> Inl (e, (fst sf, f')) | Inr f' \<Rightarrow> Inr (fst sf, f'))"
| "run_call md mf sf (CallDelete es) = Delete md sf es"
| "run_call md mf sf (CallForceDelete es) = ForceDelete mf sf es"

fun run_calls ::
  "('e \<Rightarrow> 's \<Rightarrow> 's) \<Rightarrow> ('e \<Rightarrow> 's \<Rightarrow> 's) \<Rightarrow> 's \<times> 'e flusher \<Rightarrow> 'e track_call list \<Rightarrow>
     (go_error \<times> 's \<times> 'e flusher) + 's \<times> 'e flusher" where
  "run_calls md mf sf [] = Inr sf"
| "run_calls md mf sf (c # cs) =
     (case run_call md mf sf c of Inl p \<Rightarrow> Inl p | Inr sf' \<Rightarrow> run_calls md mf sf' cs)"

section \<open>The flusher: flushing\<close>

text \<open>
  \<open>flusher.clear\<close> (the private one) and \<open>flusher.Clear\<close>.
\<close>

definition clear :: "'e flusher \<Rightarrow> 'e flusher" where
  "clear f = f\<lparr>updateSQLs := [], deleteBinds := [], localCacheDeletes := [], localCacheSets := []\<rparr>"

definition Clear :: "'e flusher \<Rightarrow> 'e flusher" where
  "Clear f = clear (f\<lparr>trackedEntities := [], trackedEntitiesCounter := 0\<rparr>)"

text \<open>
  What \<open>flushTrackedEntities\<close> calls: \<open>flusher.flush\<close> itself and the \<open>Begin\<close>, \<open>Commit\<close>
  and \<open>Rollback\<close> of the pools of the tracked entities. They act on the database, the
  caches and the entities (the world \<open>'w\<close>) and each may panic. \<open>flush\<close> has no assignment
  to \<open>f.trackedEntities\<close> or \<open>f.trackedEntitiesCounter\<close>: \<open>flush_call\<close> keeps both fields
  of the flusher it was called on, whatever the body given for it does.
\<close>

record ('e, 'w) flush_env =
  env_flush :: "bool \<Rightarrow> bool \<Rightarrow> bool \<Rightarrow> 'e list \<Rightarrow> 'w \<times> 'e flusher \<Rightarrow>
                  (go_error \<times> 'w \<times> 'e flusher) + 'w \<times> 'e flusher"
  env_begin :: "'e list \<Rightarrow> 'w \<Rightarrow> (go_error \<times> 'w) + 'w"
  env_commit :: "'e list \<Rightarrow> 'w \<Rightarrow> (go_error \<times> 'w) + 'w"
  env_rollback :: "'e list \<Rightarrow> 'w \<Rightarrow> (go_error \<times> 'w) + 'w"

definition keep_tracked :: "'e flusher \<Rightarrow> 'e flusher \<Rightarrow> 'e flusher" where
  "keep_tracked f f' =
     f'\<lparr>trackedEntities := trackedEntities f, trackedEntitiesCounter := trackedEntitiesCounter f\<rparr>"

definition flush_call ::
  "('e, 'w) flush_env \<Rightarrow> bool \<Rightarrow> bool \<Rightarrow> bool \<Rightarrow> 'e list \<Rightarrow> 'w \<times> 'e flusher \<Rightarrow>
     (go_error \<times> 'w \<times> 'e flusher) + 'w \<times> 'e flusher" where
  "flush_call env root lazy transaction entities ws =
     (case env_flush env root lazy transaction entities ws of
        Inl (e, (w', f')) \<Rightarrow> Inl (e, (w', keep_tracked (snd ws) f'))
      | Inr (w', f') \<Rightarrow> Inr (w', keep_tracked (snd ws) f'))"

text \<open>
  The deferred \<open>Rollback\<close> loop of \<open>flushTrackedEntities\<close>: it runs when the function
  leaves, by return or by panic; \<open>dbPools\<close> is empty unless \<open>transaction\<close> is set. A panic
  of the rollback itself replaces the outcome.
\<close>

definition deferred_rollback ::
  "('e, 'w) flush_env \<Rightarrow> bool \<Rightarrow> 'e list \<Rightarrow> (go_error \<times> 'w \<times> 'e flusher) + 'w \<times> 'e flusher \<Rightarrow>
     (go_error \<times> 'w \<times> 'e flusher) + 'w \<times> 'e flusher" where
  "deferred_rollback env transaction entities r =
     (if \<not> transaction then r
      else case r of
        Inl (e, (w, f)) \<Rightarrow>
          (case env_rollback env entities w of
             Inl (e', w') \<Rightarrow> Inl (e', (w', f))
           | Inr w' \<Rightarrow> Inl (e, (w', f)))
      | Inr (w, f) \<Rightarrow>
          (case env_rollback env entities w of
             Inl (e', w') \<Rightarrow> Inl (e', (w', f))
           | Inr w' \<Rightarrow> Inr (w', f)))"

definition flushTrackedEntities ::
  "('e, 'w) flush_env \<Rightarrow> bool \<Rightarrow> bool \<Rightarrow> 'w \<times> 'e flusher \<Rightarrow>
     (go_error \<times> 'w \<times> 'e flusher) + 'w \<times> 'e flusher" where
  "flushTrackedEntities env lazy transaction ws =
     (if trackedEntitiesCounter (snd ws) = 0 then Inr ws
      else
        case (if transaction then env_begin env (trackedEntities (snd ws)) (fst ws) else Inr (fst ws)) of
          Inl (e, w1) \<Rightarrow> Inl (e, (w1, snd ws))
        | Inr w1 \<Rightarrow>
            deferred_rollback env transaction (trackedEntities (snd ws))
              (case flush_call env True lazy transaction (trackedEntities (snd ws)) (w1, snd ws) of
                 Inl p \<Rightarrow> Inl p
               | Inr (w2, f2) \<Rightarrow>
                   (case (if transaction then env_commit env (trackedEntities (snd ws)) w2 else Inr w2) of
                      Inl (e, w3) \<Rightarrow> Inl (e, (w3, f2))
                    | Inr w3 \<Rightarrow> Inr (w3, clear f2))))"

definition Flush ::
  "('e, 'w) flush_env \<Rightarrow> 'w \<times> 'e flusher \<Rightarrow> (go_error \<times> 'w \<times> 'e flusher) + 'w \<times> 'e flusher" where
  "Flush env ws = flushTrackedEntities env False False ws"

definition FlushLazy ::
  "('e, 'w) flush_env \<Rightarrow> 'w \<times> 'e flusher \<Rightarrow> (go_error \<times> 'w \<times> 'e flusher) + 'w \<times> 'e flusher" where
  "FlushLazy env ws = flushTrackedEntities env True False ws"

definition FlushInTransaction ::
  "('e, 'w) flush_env \<Rightarrow> 'w \<times> 'e flusher \<Rightarrow> (go_error \<times> 'w \<times> 'e flusher) + 'w \<times> 'e flusher" where
  "FlushInTransaction env ws = flushTrackedEntities env False True ws"

text \<open>
  \<open>flushWithCheck\<close>: the deferred function recovers the panic, calls \<open>Clear\<close>, and then
  returns the error when it is a \<open>*ForeignKeyError\<close> or a \<open>*DuplicatedKeyError\<close> and panics
  again with it otherwise. The returned \<open>error\<close> is \<open>None\<close> for \<open>nil\<close>.
\<close>

definition flushWithCheck ::
  "('e, 'w) flush_env \<Rightarrow> bool \<Rightarrow> 'w \<times> 'e flusher \<Rightarrow>
     (go_error \<times> 'w \<times> 'e flusher) + (go_error option \<times> 'w \<times> 'e flusher)" where
  "flushWithCheck env transaction ws =
     (case flushTrackedEntities env False transaction ws of
        Inr ws' \<Rightarrow> Inr (None, ws')
      | Inl (asErr, (w, f)) \<Rightarrow>
          (let f' = Clear f in
           case asErr of
             ForeignKeyError m c \<Rightarrow> Inr (Some asErr, (w, f'))
           | DuplicatedKeyError m i \<Rightarrow> Inr (Some asErr, (w, f'))
           | _ \<Rightarrow> Inl (asErr, (w, f'))))"

definition FlushWithCheck ::
  "('e, 'w) flush_env \<Rightarrow> 'w \<times> 'e flusher \<Rightarrow>
     (go_error \<times> 'w \<times> 'e flusher) + (go_error option \<times> 'w \<times> 'e flusher)" where
  "FlushWithCheck env ws = flushWithCheck env False ws"

definition FlushInTransactionWithCheck ::
  "('e, 'w) flush_env \<Rightarrow> 'w \<times> 'e flusher \<Rightarrow>
     (go_error \<times> 'w \<times> 'e flusher) + (go_error option \<times> 'w \<times> 'e flusher)" where
  "FlushInTransactionWithCheck env ws = flushWithCheck env True ws"

definition FlushWithFullCheck ::
  "('e, 'w) flush_env \<Rightarrow> 'w \<times> 'e flusher \<Rightarrow>
     (go_error \<times> 'w \<times> 'e flusher) + (go_error option \<times> 'w \<times> 'e flusher)" where
  "FlushWithFullCheck env ws =
     (case flushTrackedEntities env False False ws of
        Inr ws' \<Rightarrow> Inr (None, ws')
      | Inl (asErr, (w, f)) \<Rightarrow> Inr (Some asErr, (w, Clear f)))"

section \<open>Go values and the library functions the setters call\<close>

text \<open>
  A value passed as \<open>any\<close>, by its dynamic type. A pointer is \<open>None\<close> when nil and holds
  the value it points to otherwise. \<open>int\<close> and \<open>uint\<close> are 64 bits wide. Signed integers
  are words read with \<open>sint\<close>. Floating-point numbers and \<open>time.Time\<close> values are of the
  types \<open>'f\<close> and \<open>'t\<close>, with the library functions on them given in \<open>golib\<close>.
  \<open>VOther\<close> is a value of any other dynamic type.
\<close>

datatype ('f, 't) goval =
    VNil
  | VString string
  | VBytes string
  | VBool bool | VBoolPtr "bool option"
  | VUint8 "8 word" | VUint8Ptr "8 word option"
  | VUint16 "16 word" | VUint16Ptr "16 word option"
  | VUint "64 word" | VUintPtr "64 word option"
  | VUint32 "32 word" | VUint32Ptr "32 word option"
  | VUint64 "64 word" | VUint64Ptr "64 word option"
  | VInt8 "8 word" | VInt8Ptr "8 word option"
  | VInt16 "16 word" | VInt16Ptr "16 word option"
  | VInt "64 word" | VIntPtr "64 word option"
  | VInt32 "32 word" | VInt32Ptr "32 word option"
  | VInt64 "64 word" | VInt64Ptr "64 word option"
  | VFloat32 'f | VFloat32Ptr "'f option"
  | VFloat64 'f | VFloat64Ptr "'f option"
  | VTime 't | VTimePtr "'t option"
  | VOther

text \<open>
  What a function returning \<open>(value, error)\<close> does: it panics, it returns an error
  (with a nil value), or it returns a value (with a nil error).
\<close>

datatype 'a result = Panic go_error | Err go_error | Ok 'a

text \<open>
  The functions of Go's library that the setters call and that work on floats, times
  and formatting verbs: the conversion \<open>int64(x)\<close> of a float, \<open>fmt.Sprintf("%d", v)\<close>,
  \<open>t.Location().String()\<close>, \<open>t.Format(layout)\<close>, \<open>time.ParseInLocation(layout, s, time.UTC)\<close>
  (\<open>None\<close> when it returns an error) and the zero \<open>time.Time{}\<close>.
\<close>

record ('f, 't) golib =
  float_to_int64 :: "'f \<Rightarrow> 64 word"
  sprintf_d :: "('f, 't) goval \<Rightarrow> string"
  location_string :: "'t \<Rightarrow> string"
  time_format :: "string \<Rightarrow> 't \<Rightarrow> string"
  parse_in_utc :: "string \<Rightarrow> string \<Rightarrow> 't option"
  zero_time :: "'t"

text \<open>
  \<open>strconv.ParseUint(s, 10, 64)\<close> and \<open>strconv.ParseInt(s, 10, 64)\<close>, \<open>None\<close> for an error:
  in base 10 the digits are \<open>0\<close> to \<open>9\<close> with no underscore, \<open>ParseUint\<close> takes no sign,
  \<open>ParseInt\<close> takes one optional \<open>+\<close> or \<open>-\<close>, an empty digit string is a syntax error and
  a value outside the 64-bit range is a range error.
\<close>

definition is_digit :: "char \<Rightarrow> bool" where
  "is_digit c = (48 \<le> (of_char c :: nat) \<and> (of_char c :: nat) \<le> 57)"

definition digits_value :: "string \<Rightarrow> nat" where
  "digits_value s = foldl (\<lambda>n c. 10 * n + ((of_char c :: nat) - 48)) 0 s"

definition ParseUint :: "string \<Rightarrow> 64 word option" where
  "ParseUint s =
     (if s = [] \<or> \<not> list_all is_digit s then None
      else if digits_value s < 2 ^ 64 then Some (of_nat (digits_value s))
      else None)"

definition ParseInt :: "string \<Rightarrow> 64 word option" where
  "ParseInt s =
     (if s = [] then None
      else let neg = (hd s = CHR ''-'');
               s0 = (if hd s = CHR ''+'' \<or> hd s = CHR ''-'' then tl s else s)
           in if s0 = [] \<or> \<not> list_all is_digit s0 then None
              else if 2 ^ 64 \<le> digits_value s0 then None
              else if \<not> neg \<and> 2 ^ 63 \<le> digits_value s0 then None
              else if neg \<and> 2 ^ 63 < digits_value s0 then None
              else Some (if neg then - of_nat (digits_value s0) else of_nat (digits_value s0)))"

section \<open>Bind setters\<close>

text \<open>
  The type switch of \<open>createNumberFieldBindSetter\<close>: it leaves \<open>asUint64\<close>, \<open>asInt64\<close>
  (both zero unless set) and \<open>isNil\<close>, or returns an error at once. \<open>uint64(x)\<close> of a
  narrower value without sign is \<open>ucast\<close>, \<open>int64(x)\<close> of a narrower signed value is \<open>scast\<close>.
\<close>

definition from_uint :: "'a::len word \<Rightarrow> 64 word \<times> 64 word \<times> bool" where
  "from_uint x = (ucast x, 0, False)"

definition from_int :: "'a::len word \<Rightarrow> 64 word \<times> 64 word \<times> bool" where
  "from_int x = (0, scast x, False)"

definition from_uint_ptr :: "'a::len word option \<Rightarrow> 64 word \<times> 64 word \<times> bool" where
  "from_uint_ptr i = (case i of None \<Rightarrow> (0, 0, True) | Some x \<Rightarrow> (ucast x, 0, False))"

definition from_int_ptr :: "'a::len word option \<Rightarrow> 64 word \<times> 64 word \<times> bool" where
  "from_int_ptr i = (case i of None \<Rightarrow> (0, 0, True) | Some x \<Rightarrow> (0, scast x, False))"

fun number_switch ::
  "('f, 't) golib \<Rightarrow> string \<Rightarrow> bool \<Rightarrow> ('f, 't) goval \<Rightarrow> go_error + (64 word \<times> 64 word \<times> bool)" where
  "number_switch lib columnName unsigned_col (VString s) =
     (if unsigned_col
      then (case ParseUint s of
              None \<Rightarrow> Inl (BindError columnName (''invalid number '' @ s))
            | Some u \<Rightarrow> Inr (u, 0, False))
      else (case ParseInt s of
              None \<Rightarrow> Inl (BindError columnName (''invalid number '' @ s))
            | Some i \<Rightarrow> Inr (0, i, False)))"
| "number_switch lib columnName unsigned_col (VUint8 x) = Inr (from_uint x)"
| "number_switch lib columnName unsigned_col (VUint8Ptr i) = Inr (from_uint_ptr i)"
| "number_switch lib columnName unsigned_col (VUint16 x) = Inr (from_uint x)"
| "number_switch lib columnName unsigned_col (VUint16Ptr i) = Inr (from_uint_ptr i)"
| "number_switch lib columnName unsigned_col (VUint x) = Inr (from_uint x)"
| "number_switch lib columnName unsigned_col (VUintPtr i) = Inr (from_uint_ptr i)"
| "number_switch lib columnName unsigned_col (VUint32 x) = Inr (from_uint x)"
| "number_switch lib columnName unsigned_col (VUint32Ptr i) = Inr (from_uint_ptr i)"
| "number_switch lib columnName unsigned_col (VUint64 x) = Inr (from_uint x)"
| "number_switch lib columnName unsigned_col (VUint64Ptr i) = Inr (from_uint_ptr i)"
| "number_switch lib columnName unsigned_col (VInt8 x) = Inr (from_int x)"
| "number_switch lib columnName unsigned_col (VInt8Ptr i) = Inr (from_int_ptr i)"
| "number_switch lib columnName unsigned_col (VInt16 x) = Inr (from_int x)"
| "number_switch lib columnName unsigned_col (VInt16Ptr i) = Inr (from_int_ptr i)"
| "number_switch lib columnName unsigned_col (VInt x) = Inr (from_int x)"
| "number_switch lib columnName unsigned_col (VIntPtr i) = Inr (from_int_ptr i)"
| "number_switch lib columnName unsigned_col (VInt32 x) = Inr (from_int x)"
| "number_switch lib columnName unsigned_col (VInt32Ptr i) = Inr (from_int_ptr i)"
| "number_switch lib columnName unsigned_col (VInt64 x) = Inr (from_int x)"
| "number_switch lib columnName unsigned_col (VInt64Ptr i) = Inr (from_int_ptr i)"
| "number_switch lib columnName unsigned_col (VFloat32 x) = Inr (0, float_to_int64 lib x, False)"
| "number_switch lib columnName unsigned_col (VFloat32Ptr i) =
     (case i of None \<Rightarrow> Inr (0, 0, True) | Some x \<Rightarrow> Inr (0, float_to_int64 lib x, False))"
| "number_switch lib columnName unsigned_col (VFloat64 x) = Inr (0, float_to_int64 lib x, False)"
| "number_switch lib columnName unsigned_col (VFloat64Ptr i) =
     (case i of None \<Rightarrow> Inr (0, 0, True) | Some x \<Rightarrow> Inr (0, float_to_int64 lib x, False))"
| "number_switch lib columnName unsigned_col v = Inl (BindError columnName ''invalid value'')"

text \<open>
  \<open>createNumberFieldBindSetter(columnName, unsigned_col, nullable, min, max)\<close>, applied to \<open>v\<close>.
  \<open>min\<close> is an \<open>int64\<close>, \<open>max\<close> a \<open>uint64\<close>; \<open>uint64(asInt64)\<close> and \<open>int64(asUint64)\<close> keep
  the bits.
\<close>

definition createNumberFieldBindSetter ::
  "('f, 't) golib \<Rightarrow> string \<Rightarrow> bool \<Rightarrow> bool \<Rightarrow> 64 word \<Rightarrow> 64 word \<Rightarrow> ('f, 't) goval \<Rightarrow> dbval result" where
  "createNumberFieldBindSetter lib columnName unsigned_col nullable min_v max_v v =
     (if v = VNil
      then (if \<not> nullable then Err (BindError columnName ''nil is not allowed'') else Ok DNil)
      else
        case number_switch lib columnName unsigned_col v of
          Inl e \<Rightarrow> Err e
        | Inr (asUint64, asInt64_0, isNil) \<Rightarrow>
            if isNil
            then (if \<not> nullable then Err (BindError columnName ''nil is not allowed'') else Ok DNil)
            else if \<not> unsigned_col
            then (let asInt64 = (if 0 < asUint64 then asUint64 else asInt64_0) in
                  if 0 < sint asInt64 \<and> max_v < asInt64
                  then Err (BindError columnName (''value '' @ sprintf_d lib v @ '' exceeded max allowed value''))
                  else if sint asInt64 < 0 \<and> sint asInt64 < sint min_v
                  then Err (BindError columnName (''value '' @ sprintf_d lib v @ '' exceeded min allowed value''))
                  else Ok (DInt64 asInt64))
            else if sint asInt64_0 < 0
            then Err (BindError columnName (''negative number '' @ sprintf_d lib v @ '' not allowed''))
            else (let asUint64' = (if 0 < sint asInt64_0 then asInt64_0 else asUint64) in
                  if max_v < asUint64'
                  then Err (BindError columnName (''value '' @ sprintf_d lib v @ '' exceeded max allowed value''))
                  else Ok (DUint64 asUint64')))"

text \<open>
  \<open>createDateFieldBindSetter(columnName, layout, nullable)\<close>. A nil \<open>*time.Time\<close> is not
  the nil interface, so it reaches \<open>t.Location()\<close>, which dereferences it.
\<close>

definition createDateFieldBindSetter ::
  "('f, 't) golib \<Rightarrow> string \<Rightarrow> string \<Rightarrow> bool \<Rightarrow> ('f, 't) goval \<Rightarrow> dbval result" where
  "createDateFieldBindSetter lib columnName layout nullable v =
     (case v of
        VNil \<Rightarrow> (if \<not> nullable then Err (BindError columnName ''nil is not allowed'') else Ok DNil)
      | VTime t \<Rightarrow>
          (if location_string lib t \<noteq> ''UTC''
           then Err (BindError columnName ''time must be in UTC location'')
           else Ok (DString (time_format lib layout t)))
      | VTimePtr None \<Rightarrow> Panic (Errorf ''invalid memory address or nil pointer dereference'')
      | VTimePtr (Some t) \<Rightarrow>
          (if location_string lib t \<noteq> ''UTC''
           then Err (BindError columnName ''time must be in UTC location'')
           else Ok (DString (time_format lib layout t)))
      | VString s \<Rightarrow>
          (case parse_in_utc lib layout s of
             None \<Rightarrow> Err (BindError columnName (''invalid time '' @ s))
           | Some t \<Rightarrow> Ok (DString (time_format lib layout t)))
      | _ \<Rightarrow> Err (BindError columnName ''invalid value''))"

section \<open>Field setters\<close>

text \<open>
  The entity struct behind a \<open>reflect.Value\<close> is a function from field slots to values;
  a slot \<open>'p\<close> is what \<open>getSetterField(elem, attributes, arrayIndex)\<close> selects.
  \<open>createTimeFieldSetter\<close> and \<open>createTimeNullableFieldSetter\<close> drop the error of
  \<open>time.ParseInLocation\<close>, which returns the zero time with it. The type assertion
  \<open>v.(string)\<close> panics on anything but a string.
\<close>

definition parse_or_zero :: "('f, 't) golib \<Rightarrow> string \<Rightarrow> string \<Rightarrow> 't" where
  "parse_or_zero lib layout s = (case parse_in_utc lib layout s of None \<Rightarrow> zero_time lib | Some t \<Rightarrow> t)"


definition createTimeNullableFieldSetter ::
  "('f, 't) golib \<Rightarrow> 'p \<Rightarrow> string \<Rightarrow> dbval \<Rightarrow> ('p \<Rightarrow> ('f, 't) goval) \<Rightarrow> go_error + ('p \<Rightarrow> ('f, 't) goval)" where
  "createTimeNullableFieldSetter lib field layout v elem =
     (case v of
        DNil \<Rightarrow> Inr (elem(field := VTimePtr None))
      | DString s \<Rightarrow> Inr (elem(field := VTimePtr (Some (parse_or_zero lib layout s))))
      | _ \<Rightarrow> Inl (Errorf ''interface conversion: interface {} is not string''))"

section \<open>EditEntityField\<close>

text \<open>
  \<open>type Bind map[string]interface{}\<close>: a key may be present with the value nil, which is
  \<open>Some DNil\<close>; \<open>bind[k] == nil\<close> holds for such a key and for an absent one.
\<close>

type_synonym bind = "string \<rightharpoonup> dbval"

definition bind_is_nil :: "bind \<Rightarrow> string \<Rightarrow> bool" where
  "bind_is_nil b k = (b k = None \<or> b k = Some DNil)"

text \<open>
  The implementations of \<open>EntityFlush\<close> that \<open>editEntityField\<close> tells apart by type
  assertion: \<open>*editableFields\<close> (with \<open>value\<close>, \<open>newBind\<close>, \<open>oldBind\<close>), \<open>*editableEntity\<close>,
  \<open>*insertableEntity\<close>, and whatever else is tracked (an entity marked to delete). \<open>'r\<close>
  is the entity struct behind \<open>value\<close>.
\<close>

datatype 'r EntityFlush =
    EditableFields 'r bind bind
  | EditableEntity 'r
  | InsertableEntity 'r
  | RemovableEntity 'r

text \<open>
  The part of \<open>entitySchema\<close> that \<open>editEntityField\<close> reads. Values passed as \<open>any\<close> are
  of type \<open>'v\<close>. A map of functions gives \<open>None\<close> for a missing key, which in Go is a nil
  function whose call panics. \<open>fieldByName\<close> is \<open>elem.FieldByName(name).Interface()\<close> and
  \<open>entityID\<close> is \<open>elem.Field(0).Uint()\<close>. \<open>uniqueIndexes\<close> is the map returned by
  \<open>GetUniqueIndexes()\<close>, in the order the \<open>range\<close> visits it.
\<close>

record ('v, 'r) entitySchema =
  index :: "64 word"
  fieldBindSetters :: "string \<rightharpoonup> ('v \<Rightarrow> dbval result)"
  fieldGetters :: "string \<rightharpoonup> ('r \<Rightarrow> 'v)"
  fieldSetters :: "string \<rightharpoonup> (dbval \<Rightarrow> 'r \<Rightarrow> go_error + 'r)"
  uniqueIndexes :: "(string \<times> string list) list"
  fieldByName :: "'r \<Rightarrow> string \<Rightarrow> 'v"
  entityID :: "'r \<Rightarrow> 64 word"

text \<open>
  \<open>ctx.trackedEntities\<close>: nil, or a map from \<open>schema.index\<close> to a map from the entity id
  to its \<open>EntityFlush\<close>.
\<close>

type_synonym 'r tracked = "(64 word \<rightharpoonup> (64 word \<rightharpoonup> 'r EntityFlush)) option"

definition nil_func_call :: go_error where
  "nil_func_call = Errorf ''invalid memory address or nil pointer dereference''"

text \<open>
  \<open>addUniqueIndexFieldsToBind(schema, field, oldBind, newBind, elem)\<close>. The innermost
  loop, over the columns of one index: the error of the setter is dropped and its value
  (nil with an error) is written to both binds.
\<close>

fun add_index_columns ::
  "('v, 'r) entitySchema \<Rightarrow> 'r \<Rightarrow> string list \<Rightarrow> bind \<times> bind \<Rightarrow> go_error + (bind \<times> bind)" where
  "add_index_columns schema elem [] binds = Inr binds"
| "add_index_columns schema elem (indexColumnToAdd # rest) binds =
     (if bind_is_nil (fst binds) indexColumnToAdd
      then (case fieldBindSetters schema indexColumnToAdd of
              None \<Rightarrow> Inl nil_func_call
            | Some setter \<Rightarrow>
                (case setter (fieldByName schema elem indexColumnToAdd) of
                   Panic e \<Rightarrow> Inl e
                 | Err e \<Rightarrow>
                     add_index_columns schema elem rest
                       ((fst binds)(indexColumnToAdd \<mapsto> DNil), (snd binds)(indexColumnToAdd \<mapsto> DNil))
                 | Ok val \<Rightarrow>
                     add_index_columns schema elem rest
                       ((fst binds)(indexColumnToAdd \<mapsto> val), (snd binds)(indexColumnToAdd \<mapsto> val))))
      else add_index_columns schema elem rest binds)"

text \<open>
  The outer loop over the unique indexes; the pair is \<open>(oldBind, newBind)\<close>. The middle
  loop with its \<open>break\<close> runs the innermost loop once when \<open>field\<close> is a column of the
  index and not at all otherwise.
\<close>

fun unique_indexes_loop ::
  "('v, 'r) entitySchema \<Rightarrow> string \<Rightarrow> 'r \<Rightarrow> (string \<times> string list) list \<Rightarrow> bind \<times> bind \<Rightarrow>
     go_error + (bind \<times> bind)" where
  "unique_indexes_loop schema field elem [] binds = Inr binds"
| "unique_indexes_loop schema field elem (ix # rest) binds =
     (if field \<in> set (snd ix)
      then (case add_index_columns schema elem (snd ix) binds of
              Inl e \<Rightarrow> Inl e
            | Inr binds' \<Rightarrow> unique_indexes_loop schema field elem rest binds')
      else unique_indexes_loop schema field elem rest binds)"

definition addUniqueIndexFieldsToBind ::
  "('v, 'r) entitySchema \<Rightarrow> string \<Rightarrow> bind \<Rightarrow> bind \<Rightarrow> 'r \<Rightarrow> go_error + (bind \<times> bind)" where
  "addUniqueIndexFieldsToBind schema field oldBind newBind elem =
     unique_indexes_loop schema field elem (uniqueIndexes schema) (oldBind, newBind)"

text \<open>
  The function literal that \<open>editEntityField\<close> runs under \<open>mutexFlush\<close>, once the new and
  the old canonical value are known. It returns \<open>asyncError\<close> and the tracked entities.
\<close>

definition track_edit ::
  "('v, 'r) entitySchema \<Rightarrow> 'r tracked \<Rightarrow> 'r \<Rightarrow> string \<Rightarrow> dbval \<Rightarrow> dbval \<Rightarrow>
     go_error + (go_error option \<times> 'r tracked)" where
  "track_edit schema tracked elem field newValue oldValue =
     (let id = entityID schema elem;
          all_tracked = (case tracked of None \<Rightarrow> Map.empty | Some t \<Rightarrow> t);
          entities = (case all_tracked (index schema) of None \<Rightarrow> Map.empty | Some es \<Rightarrow> es)
      in case entities id of
           None \<Rightarrow>
             (case addUniqueIndexFieldsToBind schema field [field \<mapsto> oldValue] [field \<mapsto> newValue] elem of
                Inl e \<Rightarrow> Inl e
              | Inr (oldBind, newBind) \<Rightarrow>
                  Inr (None, Some (all_tracked(index schema \<mapsto>
                         entities(id \<mapsto> EditableFields elem newBind oldBind)))))
         | Some (EditableFields val newBind oldBind) \<Rightarrow>
             (case addUniqueIndexFieldsToBind schema field
                     (oldBind(field \<mapsto> oldValue)) (newBind(field \<mapsto> newValue)) elem of
                Inl e \<Rightarrow> Inl e
              | Inr (oldBind', newBind') \<Rightarrow>
                  Inr (None, Some (all_tracked(index schema \<mapsto>
                         entities(id \<mapsto> EditableFields val newBind' oldBind')))))
         | Some (EditableEntity val) \<Rightarrow>
             (case fieldSetters schema field of
                None \<Rightarrow> Inl nil_func_call
              | Some fSetter \<Rightarrow>
                  (case fSetter newValue val of
                     Inl e \<Rightarrow> Inl e
                   | Inr val' \<Rightarrow>
                       Inr (None, Some (all_tracked(index schema \<mapsto>
                              entities(id \<mapsto> EditableEntity val'))))))
         | Some (InsertableEntity val) \<Rightarrow>
             (case fieldSetters schema field of
                None \<Rightarrow> Inl nil_func_call
              | Some fSetter \<Rightarrow>
                  (case fSetter newValue val of
                     Inl e \<Rightarrow> Inl e
                   | Inr val' \<Rightarrow>
                       Inr (None, Some (all_tracked(index schema \<mapsto>
                              entities(id \<mapsto> InsertableEntity val'))))))
         | Some (RemovableEntity val) \<Rightarrow>
             Inr (Some (BindError field ''setting field in entity marked to delete not allowed''),
                  Some (all_tracked(index schema \<mapsto> entities))))"

text \<open>
  \<open>editEntityField(ctx, entity, field, value)\<close>, with \<open>ctx.trackedEntities\<close> passed in and
  returned next to the error (\<open>None\<close> for nil); \<open>Inl\<close> is a panic. Every setter of the
  package returns a nil value with its error, so \<open>oldValue\<close> is nil when \<open>err\<close> is not.
\<close>

definition editEntityField ::
  "('v, 'r) entitySchema \<Rightarrow> 'r tracked \<Rightarrow> 'r \<Rightarrow> string \<Rightarrow> 'v \<Rightarrow>
     go_error + (go_error option \<times> 'r tracked)" where
  "editEntityField schema tracked elem field v =
     (case fieldBindSetters schema field of
        None \<Rightarrow> Inr (Some (BindError field ''unknown field''), tracked)
      | Some setter \<Rightarrow>
          (case setter v of
             Panic e \<Rightarrow> Inl e
           | Err err \<Rightarrow> Inr (Some err, tracked)
           | Ok newValue \<Rightarrow>
               (case fieldGetters schema field of
                  None \<Rightarrow> Inl nil_func_call
                | Some getter \<Rightarrow>
                    (case setter (getter elem) of
                       Panic e \<Rightarrow> Inl e
                     | Err err \<Rightarrow> track_edit schema tracked elem field newValue DNil
                     | Ok oldValue \<Rightarrow>
                         if oldValue = newValue then Inr (None, tracked)
                         else track_edit schema tracked elem field newValue oldValue))))"

text \<open>
  Repeated calls, each with its entity, field and value, on the tracked entities the
  call before left; a returned error does not stop the caller, a panic does.
\<close>

fun edit_all ::
  "('v, 'r) entitySchema \<Rightarrow> 'r tracked \<Rightarrow> ('r \<times> string \<times> 'v) list \<Rightarrow> go_error + 'r tracked" where
  "edit_all schema tracked [] = Inr tracked"
| "edit_all schema tracked (c # rest) =
     (case editEntityField schema tracked (fst c) (fst (snd c)) (snd (snd c)) of
        Inl e \<Rightarrow> Inl e
      | Inr r \<Rightarrow> edit_all schema (snd r) rest)"

definition lookup_tracked :: "'r tracked \<Rightarrow> 64 word \<Rightarrow> 64 word \<Rightarrow> 'r EntityFlush option" where
  "lookup_tracked tracked ix entity_id =
     (case tracked of
        None \<Rightarrow> None
      | Some t \<Rightarrow> (case t ix of None \<Rightarrow> None | Some es \<Rightarrow> es entity_id))"

section \<open>flush: the ids of a batched INSERT\<close>

text \<open>
  The fields of an entity's \<open>ORM\<close> that the insert branch of \<open>flusher.flush\<close> reads and
  writes: the \<open>ID\<close> field of the entity (\<open>idElem\<close>, read by \<open>GetID()\<close>), \<open>dBData\<close> (nil is
  the empty list), \<open>loaded\<close> and \<open>inDB\<close>. Entities are pointers: an address, with a store
  giving the \<open>ORM\<close> at each address, so that one entity listed twice is one object.
\<close>

record ORM =
  idElem :: "64 word"
  dBData :: "dbval list"
  loaded :: bool
  inDB :: bool

type_synonym entity_ptr = nat

record tableSchema =
  columnNames :: "string list"
  columnMapping :: "string \<rightharpoonup> nat"

text \<open>
  Modelled from the spec: \<open>ORM.initDBData\<close>, which is not among the sources; the spec has
  \<open>DbData\<close> "equal-length to Columns, nil until loaded/inserted".
\<close>

definition initDBData :: "tableSchema \<Rightarrow> ORM \<Rightarrow> ORM" where
  "initDBData schema orm =
     (if dBData orm = [] then orm\<lparr>dBData := replicate (length (columnNames schema)) DNil\<rparr> else orm)"

text \<open>
  \<open>flusher.injectBind\<close>. The bind is given as the list of its entries in the order the
  \<open>range\<close> visits them. A key that \<open>columnMapping\<close> lacks reads as index 0, and an index
  beyond \<open>dBData\<close> panics.
\<close>

fun inject_loop :: "(string \<rightharpoonup> nat) \<Rightarrow> (string \<times> dbval) list \<Rightarrow> dbval list \<Rightarrow> go_error + dbval list" where
  "inject_loop mapping [] d = Inr d"
| "inject_loop mapping (kv # rest) d =
     (let i = (case mapping (fst kv) of None \<Rightarrow> 0 | Some i \<Rightarrow> i)
      in if i < length d then inject_loop mapping rest (d[i := snd kv])
         else Inl (Errorf ''index out of range''))"

definition injectBind :: "tableSchema \<Rightarrow> ORM \<Rightarrow> (string \<times> dbval) list \<Rightarrow> go_error + ORM" where
  "injectBind schema orm bind =
     (let orm1 = initDBData schema orm
      in case inject_loop (columnMapping schema) bind (dBData orm1) of
           Inl e \<Rightarrow> Inl e
         | Inr d \<Rightarrow> Inr (orm1\<lparr>dBData := d, loaded := True, inDB := True\<rparr>))"

text \<open>
  The loop of the non-lazy branch after \<open>res := db.Exec(sql, ...)\<close> and
  \<open>id := res.LastInsertId()\<close>, over \<open>insertReflectValues[typeOf]\<close> paired with
  \<open>insertBinds[typeOf]\<close>. It returns the store and, in call order, the entity and the
  \<open>insertedID\<close> of every call of \<open>updateCacheForInserted\<close>, whose own effects are on the
  cache and stream buffers.
\<close>

fun insert_loop ::
  "tableSchema \<Rightarrow> 64 word \<Rightarrow> (entity_ptr \<times> (string \<times> dbval) list) list \<Rightarrow> 64 word \<Rightarrow>
     (entity_ptr \<Rightarrow> ORM) \<Rightarrow> go_error + ((entity_ptr \<Rightarrow> ORM) \<times> (entity_ptr \<times> 64 word) list)" where
  "insert_loop schema autoincrement [] cur st = Inr (st, [])"
| "insert_loop schema autoincrement (eb # rest) cur st =
     (case injectBind schema (st (fst eb)) (snd eb) of
        Inl e \<Rightarrow> Inl e
      | Inr orm1 \<Rightarrow>
          if idElem orm1 = 0
          then (if dBData orm1 = [] then Inl (Errorf ''index out of range'')
                else (case insert_loop schema autoincrement rest (cur + autoincrement)
                             (st(fst eb := orm1\<lparr>idElem := cur, dBData := (dBData orm1)[0 := DUint64 cur]\<rparr>)) of
                        Inl e \<Rightarrow> Inl e
                      | Inr r \<Rightarrow> Inr (fst r, (fst eb, cur) # snd r)))
          else (case insert_loop schema autoincrement rest cur (st(fst eb := orm1)) of
                  Inl e \<Rightarrow> Inl e
                | Inr r \<Rightarrow> Inr (fst r, (fst eb, idElem orm1) # snd r)))"

section \<open>The background consumer: replaying a lazy envelope\<close>

text \<open>
  The rows of the envelope's \<open>"l"\<close> and \<open>"d"\<close> lists after unserialisation, with the keys
  \<open>handleQueries\<close> reads: \<open>ID\<close>, \<open>PoolName\<close>, \<open>TableName\<close>, \<open>Meta\<close>, \<open>Before\<close>, \<open>Changes\<close> of a
  log row, and \<open>Event\<close> (with \<open>E\<close>, \<open>I\<close>, \<open>A\<close>) and \<open>Streams\<close> of a dirty row. A missing
  list is \<open>None\<close>.
\<close>

record log_row =
  row_ID :: "64 word"
  row_PoolName :: string
  row_TableName :: string
  row_Meta :: "(string \<times> dbval) list option"
  row_Before :: "(string \<times> dbval) list option"
  row_Changes :: "(string \<times> dbval) list option"

record dirty_row =
  event_E :: string
  event_I :: "64 word"
  event_A :: string
  row_Streams :: "string list"

record lazy_envelope =
  env_q :: "(string \<times> string \<times> dbval list option) list option"
  env_l :: "log_row list option"
  env_d :: "dirty_row list option"

text \<open>
  The database of the consumer: \<open>db_exec\<close> is \<open>engine.GetMysql(code).Exec(sql, args...)\<close>
  followed by \<open>LastInsertId()\<close>, a panic when the pool is unknown or the statement fails;
  \<open>db_autoincrement\<close> is \<open>GetPoolConfig().getAutoincrement()\<close> of the pool.
\<close>

record 'db consumer_db =
  db_exec :: "'db \<Rightarrow> string \<Rightarrow> string \<Rightarrow> dbval list option \<Rightarrow> go_error + (64 word \<times> 'db)"
  db_autoincrement :: "string \<Rightarrow> 64 word"

text \<open>
  The two inner loops of the \<open>INSERT INTO\<close> branch. Each returns the rows and the value
  the variable \<open>id\<close> has after it.
\<close>

fun stamp_log_rows :: "64 word \<Rightarrow> 64 word \<Rightarrow> log_row list \<Rightarrow> log_row list \<times> 64 word" where
  "stamp_log_rows autoincrement cur [] = ([], cur)"
| "stamp_log_rows autoincrement cur (row # rest) =
     (case stamp_log_rows autoincrement (cur + autoincrement) rest of
        (rows, cur') \<Rightarrow> (row\<lparr>row_ID := cur\<rparr> # rows, cur'))"

fun stamp_dirty_rows :: "64 word \<Rightarrow> 64 word \<Rightarrow> dirty_row list \<Rightarrow> dirty_row list \<times> 64 word" where
  "stamp_dirty_rows autoincrement cur [] = ([], cur)"
| "stamp_dirty_rows autoincrement cur (row # rest) =
     (case stamp_dirty_rows autoincrement (cur + autoincrement) rest of
        (rows, cur') \<Rightarrow> (row\<lparr>event_I := cur\<rparr> # rows, cur'))"

text \<open>
  The first loop of \<open>handleQueries\<close>, over \<open>validMap["q"]\<close>; it returns \<open>ids\<close>, the database
  and the two lists. \<open>sql[0:11]\<close> panics on a statement shorter than 11 bytes.
\<close>

fun queries_loop ::
  "'db consumer_db \<Rightarrow> (string \<times> string \<times> dbval list option) list \<Rightarrow>
     'db \<times> log_row list option \<times> dirty_row list option \<Rightarrow>
     go_error + (64 word list \<times> 'db \<times> log_row list option \<times> dirty_row list option)" where
  "queries_loop c [] s = Inr ([], s)"
| "queries_loop c (query # rest) s =
     (case db_exec c (fst s) (fst query) (fst (snd query)) (snd (snd query)) of
        Inl e \<Rightarrow> Inl e
      | Inr res \<Rightarrow>
          if length (fst (snd query)) < 11 then Inl (Errorf ''slice bounds out of range'')
          else if take 11 (fst (snd query)) = ''INSERT INTO''
          then (let cur = fst res;
                    l = (case fst (snd s) of
                           None \<Rightarrow> (None, cur)
                         | Some logEvents \<Rightarrow>
                             (case stamp_log_rows (db_autoincrement c (fst query)) cur logEvents of
                                (rows, cur') \<Rightarrow> (Some rows, cur')));
                    d = (case snd (snd s) of
                           None \<Rightarrow> (None, snd l)
                         | Some dirtyEvents \<Rightarrow>
                             (case stamp_dirty_rows (db_autoincrement c (fst query)) (snd l) dirtyEvents of
                                (rows, cur') \<Rightarrow> (Some rows, cur')))
                in case queries_loop c rest (snd res, fst l, fst d) of
                     Inl e \<Rightarrow> Inl e
                   | Inr r \<Rightarrow> Inr (fst res # fst r, snd r))
          else (case queries_loop c rest (snd res, snd s) of
                  Inl e \<Rightarrow> Inl e
                | Inr r \<Rightarrow> Inr (0 # fst r, snd r)))"

text \<open>
  \<open>handleQueries\<close>: nil ids when the envelope has no \<open>"q"\<close>; otherwise the first loop, then
  one \<open>LogQueueValue\<close> per \<open>"l"\<close> row handed to \<open>handleLog\<close> and one \<open>PublishMap\<close> per
  stream of every \<open>"d"\<close> row. The log values and the published events are returned in
  order; the number of a log value is the decimal text of the row's \<open>ID\<close> read back.
\<close>

definition handleQueries ::
  "'db consumer_db \<Rightarrow> 'db \<Rightarrow> lazy_envelope \<Rightarrow>
     go_error + (64 word list option \<times> 'db \<times> lazy_envelope \<times> log_row list \<times> (string \<times> dirty_row) list)" where
  "handleQueries c db validMap =
     (case env_q validMap of
        None \<Rightarrow> Inr (None, db, validMap, [], [])
      | Some validQueries \<Rightarrow>
          (case queries_loop c validQueries (db, env_l validMap, env_d validMap) of
             Inl e \<Rightarrow> Inl e
           | Inr (ids, db', l, d) \<Rightarrow>
               Inr (Some ids, db', validMap\<lparr>env_l := l, env_d := d\<rparr>,
                    (case l of None \<Rightarrow> [] | Some rows \<Rightarrow> rows),
                    (case d of None \<Rightarrow> []
                     | Some rows \<Rightarrow> concat (map (\<lambda>row. map (\<lambda>stream. (stream, row)) (row_Streams row)) rows)))))"

section \<open>The background consumer: the search indexer loop\<close>

text \<open>
  The \<open>for\<close> loop of \<open>handleRedisIndexerEvent\<close>. \<open>Indexer\<close> is \<open>indexDefinition.Indexer\<close>
  (\<open>None\<close> for nil); it works on the engine and the pusher, the state \<open>'s\<close>, and returns
  the next cursor and whether there is more. The second component of the state is the value
  stored under \<open>idRedisKey\<close> (set to the decimal text of \<open>nextID\<close> when there is more,
  deleted at the end). \<open>calls\<close> counts the calls of \<open>Indexer\<close>; it is not a variable of
  the source. The loop returns the state, the stored value, the last cursor and the
  count, or panics. The removal of older index versions after the last call works on the
  index list only.
\<close>

function indexer_loop ::
  "('s \<Rightarrow> 64 word \<Rightarrow> (64 word \<times> bool) \<times> 's) option \<Rightarrow> string \<Rightarrow> string \<Rightarrow>
     's \<times> 64 word option \<Rightarrow> 64 word \<Rightarrow> nat \<Rightarrow> go_error + ('s \<times> 64 word option \<times> 64 word \<times> nat)" where
  "indexer_loop Indexer name redisPool s cur calls =
     (case Indexer of
        None \<Rightarrow> Inr (fst s, None, cur, calls)
      | Some f \<Rightarrow>
          (let r = f (fst s) cur; nextID = fst (fst r); hasMore = snd (fst r)
           in if \<not> hasMore then Inr (snd r, None, cur, Suc calls)
              else if nextID \<le> cur
              then Inl (Errorf (''loop detected in indxer for index '' @ name @ '' in pool '' @ redisPool))
              else indexer_loop Indexer name redisPool (snd r, Some nextID) nextID (Suc calls)))"
  by pat_completeness auto
termination
proof (relation "measure (\<lambda>(Indexer, name, redisPool, s, cur, calls). 2 ^ 64 - unat cur)", goal_cases)
  case 1
  show ?case by simp
next
  case (2 Indexer name redisPool s cur calls f r nextID hasMore)
  have "unat nextID < 2 ^ 64"
    using unsigned_less [of nextID, where ?'a = nat] by simp
  moreover have "unat cur < unat nextID"
    using 2 by (simp add: not_le word_less_nat_alt)
  ultimately show ?case by simp
qed

text \<open>
  The start of the loop in \<open>handleRedisIndexerEvent\<close>: the cursor is the stored value when
  there is one, and zero otherwise.
\<close>

definition run_indexer ::
  "('s \<Rightarrow> 64 word \<Rightarrow> (64 word \<times> bool) \<times> 's) option \<Rightarrow> string \<Rightarrow> string \<Rightarrow>
     's \<times> 64 word option \<Rightarrow> go_error + ('s \<times> 64 word option \<times> 64 word \<times> nat)" where
  "run_indexer Indexer name redisPool s =
     indexer_loop Indexer name redisPool s (case snd s of None \<Rightarrow> 0 | Some v \<Rightarrow> v) 0"

section \<open>Sample environments\<close>

text \<open>
  Two bodies for \<open>flush\<close>, on a world with nothing in it: one where no tracked entity is
  dirty, so that \<open>flush\<close> skips every entity and leaves the flusher as it is, and one
  where the database rejects the statement and \<open>flush\<close> panics with the error given.
\<close>

definition clean_env :: "(nat, unit) flush_env" where
  "clean_env = \<lparr>env_flush = (\<lambda>root lazy transaction entities ws. Inr ws),
                 env_begin = (\<lambda>entities w. Inr w),
                 env_commit = (\<lambda>entities w. Inr w),
                 env_rollback = (\<lambda>entities w. Inr w)\<rparr>"

definition failing_env :: "go_error \<Rightarrow> (nat, unit) flush_env" where
  "failing_env e = \<lparr>env_flush = (\<lambda>root lazy transaction entities ws. Inl (e, ws)),
                     env_begin = (\<lambda>entities w. Inr w),
                     env_commit = (\<lambda>entities w. Inr w),
                     env_rollback = (\<lambda>entities w. Inr w)\<rparr>"

definition one_tracked :: "nat flusher" where
  "one_tracked = \<lparr>trackedEntities = [0], trackedEntitiesCounter = 1, updateSQLs = [],
     deleteBinds = [], localCacheDeletes = [], localCacheSets = []\<rparr>"
section \<open>Reading the inputs of the number setter\<close>

text \<open>
  For stating what the number setter does with an input: the integer that a value of a
  fixed-width integer type, or a non-nil pointer to one, holds, and for a float the
  integer \<open>int64(x)\<close> that the setter works with; and the inputs that are nil, as the nil
  interface or as a nil pointer of one of the types in the switch.
\<close>

definition number_input :: "('f, 't) golib \<Rightarrow> ('f, 't) goval \<Rightarrow> int option" where
  "number_input lib v =
     (case v of
        VUint8 x \<Rightarrow> Some (uint x) | VUint8Ptr p \<Rightarrow> map_option uint p
      | VUint16 x \<Rightarrow> Some (uint x) | VUint16Ptr p \<Rightarrow> map_option uint p
      | VUint x \<Rightarrow> Some (uint x) | VUintPtr p \<Rightarrow> map_option uint p
      | VUint32 x \<Rightarrow> Some (uint x) | VUint32Ptr p \<Rightarrow> map_option uint p
      | VUint64 x \<Rightarrow> Some (uint x) | VUint64Ptr p \<Rightarrow> map_option uint p
      | VInt8 x \<Rightarrow> Some (sint x) | VInt8Ptr p \<Rightarrow> map_option sint p
      | VInt16 x \<Rightarrow> Some (sint x) | VInt16Ptr p \<Rightarrow> map_option sint p
      | VInt x \<Rightarrow> Some (sint x) | VIntPtr p \<Rightarrow> map_option sint p
      | VInt32 x \<Rightarrow> Some (sint x) | VInt32Ptr p \<Rightarrow> map_option sint p
      | VInt64 x \<Rightarrow> Some (sint x) | VInt64Ptr p \<Rightarrow> map_option sint p
      | VFloat32 x \<Rightarrow> Some (sint (float_to_int64 lib x))
      | VFloat32Ptr p \<Rightarrow> map_option (\<lambda>x. sint (float_to_int64 lib x)) p
      | VFloat64 x \<Rightarrow> Some (sint (float_to_int64 lib x))
      | VFloat64Ptr p \<Rightarrow> map_option (\<lambda>x. sint (float_to_int64 lib x)) p
      | _ \<Rightarrow> None)"

definition nil_number_input :: "('f, 't) goval \<Rightarrow> bool" where
  "nil_number_input v =
     (v \<in> {VNil, VUint8Ptr None, VUint16Ptr None, VUintPtr None, VUint32Ptr None, VUint64Ptr None,
            VInt8Ptr None, VInt16Ptr None, VIntPtr None, VInt32Ptr None, VInt64Ptr None,
            VFloat32Ptr None, VFloat64Ptr None})"

section \<open>A sample library\<close>

text \<open>
  A small instance of \<open>golib\<close> for concrete runs: floats that are whole numbers, times
  that are a location name with the text \<open>Format\<close> gives for them, and \<open>%d\<close> printing an
  integer in decimal and a string the way \<open>fmt\<close> reports a wrong verb.
\<close>

function decimal :: "nat \<Rightarrow> string" where
  "decimal n =
     (if n < 10 then [''0123456789'' ! n] else decimal (n div 10) @ [''0123456789'' ! (n mod 10)])"
  by pat_completeness auto
termination
  by (relation "measure (\<lambda>n. n)") auto

definition signed_decimal :: "int \<Rightarrow> string" where
  "signed_decimal i = (if i < 0 then CHR ''-'' # decimal (nat (- i)) else decimal (nat i))"

definition sample_sprintf_d :: "(int, string \<times> string) goval \<Rightarrow> string" where
  "sample_sprintf_d v =
     (case v of
        VString s \<Rightarrow> ''%!d(string='' @ s @ '')''
      | VUint8 x \<Rightarrow> decimal (unat x) | VUint16 x \<Rightarrow> decimal (unat x) | VUint x \<Rightarrow> decimal (unat x)
      | VUint32 x \<Rightarrow> decimal (unat x) | VUint64 x \<Rightarrow> decimal (unat x)
      | VInt8 x \<Rightarrow> signed_decimal (sint x) | VInt16 x \<Rightarrow> signed_decimal (sint x)
      | VInt x \<Rightarrow> signed_decimal (sint x) | VInt32 x \<Rightarrow> signed_decimal (sint x)
      | VInt64 x \<Rightarrow> signed_decimal (sint x)
      | _ \<Rightarrow> ''%!d(?)'')"

definition sample_lib :: "(int, string \<times> string) golib" where
  "sample_lib = \<lparr>float_to_int64 = (\<lambda>x. word_of_int x),
                  sprintf_d = sample_sprintf_d,
                  location_string = fst,
                  time_format = (\<lambda>layout t. snd t),
                  parse_in_utc = (\<lambda>layout s. if s = [] then None else Some (''UTC'', s)),
                  zero_time = (''UTC'', ''0001-01-01'')\<rparr>"

section \<open>Reading the inputs of the date setter\<close>



section \<open>The binds that EditEntityField accumulates\<close>

text \<open>
  For stating what holds of a bind pair: the columns that belong to some unique index
  of the schema, and the relation between \<open>newBind\<close> and \<open>oldBind\<close> that every tracked
  \<open>editableFields\<close> of the schema keeps. Every key of \<open>newBind\<close> is a key of \<open>oldBind\<close>, and
  outside the unique-index columns the two values differ, or the new one is nil (and
  then so is the old one).
\<close>

definition unique_columns :: "('v, 'r) entitySchema \<Rightarrow> string set" where
  "unique_columns schema = (\<Union>ix \<in> set (uniqueIndexes schema). set (snd ix))"

definition bind_pair_ok :: "('v, 'r) entitySchema \<Rightarrow> bind \<Rightarrow> bind \<Rightarrow> bool" where
  "bind_pair_ok schema newBind oldBind =
     (\<forall>K nv. newBind K = Some nv \<longrightarrow>
        (\<exists>ov. oldBind K = Some ov \<and> (K \<notin> unique_columns schema \<longrightarrow> nv \<noteq> ov \<or> nv = DNil)))"

definition tracked_ok :: "('v, 'r) entitySchema \<Rightarrow> 'r tracked \<Rightarrow> bool" where
  "tracked_ok schema tracked =
     (\<forall>entity_id val newBind oldBind.
        lookup_tracked tracked (index schema) entity_id = Some (EditableFields val newBind oldBind) \<longrightarrow>
        bind_pair_ok schema newBind oldBind)"

section \<open>A sample schema\<close>

text \<open>
  An entity with the unsigned columns \<open>Age\<close>, \<open>Code\<close> and \<open>Score\<close> and the nullable date
  \<open>SeenAt\<close>, and one unique index over \<open>Age\<close> and \<open>Code\<close>. The entity struct is a function
  from field names to values.
\<close>

definition sample_field_setter :: "string \<Rightarrow> dbval \<Rightarrow> (string \<Rightarrow> (int, string \<times> string) goval) \<Rightarrow>
    go_error + (string \<Rightarrow> (int, string \<times> string) goval)" where
  "sample_field_setter name v elem =
     (case v of
        DUint64 x \<Rightarrow> Inr (elem(name := VUint64 x))
      | _ \<Rightarrow> Inl (Errorf ''interface conversion: interface {} is not uint64''))"

definition sample_schema ::
  "((int, string \<times> string) goval, string \<Rightarrow> (int, string \<times> string) goval) entitySchema" where
  "sample_schema =
     \<lparr>index = 1,
      fieldBindSetters =
        [''Age'' \<mapsto> createNumberFieldBindSetter sample_lib ''Age'' True False 0 255,
         ''Code'' \<mapsto> createNumberFieldBindSetter sample_lib ''Code'' True False 0 65535,
         ''Score'' \<mapsto> createNumberFieldBindSetter sample_lib ''Score'' True False 0 255,
         ''SeenAt'' \<mapsto> createDateFieldBindSetter sample_lib ''SeenAt'' ''2006-01-02'' True],
      fieldGetters =
        [''Age'' \<mapsto> (\<lambda>elem. elem ''Age''), ''Code'' \<mapsto> (\<lambda>elem. elem ''Code''),
         ''Score'' \<mapsto> (\<lambda>elem. elem ''Score''), ''SeenAt'' \<mapsto> (\<lambda>elem. elem ''SeenAt'')],
      fieldSetters =
        [''Age'' \<mapsto> sample_field_setter ''Age'', ''Code'' \<mapsto> sample_field_setter ''Code'',
         ''Score'' \<mapsto> sample_field_setter ''Score''],
      uniqueIndexes = [(''AgeCode'', [''Age'', ''Code''])],
      fieldByName = (\<lambda>elem name. elem name),
      entityID = (\<lambda>elem. case elem ''ID'' of VUint64 x \<Rightarrow> x | _ \<Rightarrow> 0)\<rparr>"

definition sample_entity :: "string \<Rightarrow> (int, string \<times> string) goval" where
  "sample_entity =
     (\<lambda>name. VNil)(''ID'' := VUint64 7, ''Age'' := VUint8 30, ''Code'' := VUint16 500,
                    ''Score'' := VUint8 1, ''SeenAt'' := VTime (''Local'', ''2022-02-03''))"

section \<open>Counting the ids a batch takes\<close>

text \<open>
  For stating which id an entity of a batch receives: the number of entities in a part
  of the batch whose \<open>ID\<close> is zero in the store, and so take an id from the sequence; and
  the shape \<open>injectBind\<close> relies on, a first column, every mapped index within the
  columns, and a \<open>dBData\<close> that is nil or as long as the columns.
\<close>

definition count_unset :: "(entity_ptr \<Rightarrow> ORM) \<Rightarrow> (entity_ptr \<times> 'b) list \<Rightarrow> nat" where
  "count_unset st xs = length (filter (\<lambda>eb. idElem (st (fst eb)) = 0) xs)"

definition batch_fits :: "tableSchema \<Rightarrow> (entity_ptr \<Rightarrow> ORM) \<Rightarrow> (entity_ptr \<times> 'b) list \<Rightarrow> bool" where
  "batch_fits schema st batch =
     (columnNames schema \<noteq> []
      \<and> (\<forall>key i. columnMapping schema key = Some i \<longrightarrow> i < length (columnNames schema))
      \<and> (\<forall>eb \<in> set batch. dBData (st (fst eb)) = []
            \<or> length (dBData (st (fst eb))) = length (columnNames schema)))"

section \<open>A sample batch\<close>

text \<open>
  A table with the columns \<open>ID\<close> and \<open>Name\<close>, and three new entities of which the second
  was given the id 7 before the flush.
\<close>

definition sample_table :: tableSchema where
  "sample_table = \<lparr>columnNames = [''ID'', ''Name''], columnMapping = [''ID'' \<mapsto> 0, ''Name'' \<mapsto> 1]\<rparr>"

definition sample_store :: "entity_ptr \<Rightarrow> ORM" where
  "sample_store = (\<lambda>a. \<lparr>idElem = 0, dBData = [], loaded = False, inDB = False\<rparr>)
                    (1 := \<lparr>idElem = 7, dBData = [], loaded = False, inDB = False\<rparr>)"

definition sample_batch :: "(entity_ptr \<times> (string \<times> dbval) list) list" where
  "sample_batch = [(0, [(''Name'', DString ''a'')]),
                   (1, [(''Name'', DString ''b''), (''ID'', DUint64 7)]),
                   (2, [(''Name'', DString ''c'')])]"

section \<open>A sample envelope\<close>

text \<open>
  A lazy flush of two new users: one compound INSERT, two log rows and two dirty events,
  all recorded with the id 0; and a database whose \<open>LastInsertId\<close> is 10 for every
  statement, with autoincrement 1.
\<close>

definition sample_db :: "unit consumer_db" where
  "sample_db = \<lparr>db_exec = (\<lambda>db code sql args. Inr (10, db)), db_autoincrement = (\<lambda>code. 1)\<rparr>"

definition sample_log_row :: log_row where
  "sample_log_row = \<lparr>row_ID = 0, row_PoolName = ''log'', row_TableName = ''_log_default_users'',
     row_Meta = None, row_Before = None, row_Changes = Some [(''Name'', DString ''a'')]\<rparr>"

definition sample_dirty_row :: dirty_row where
  "sample_dirty_row = \<lparr>event_E = ''orm.User'', event_I = 0, event_A = ''i'', row_Streams = [''user_changed'']\<rparr>"

definition sample_envelope :: lazy_envelope where
  "sample_envelope =
     \<lparr>env_q = Some [(''default'', ''INSERT INTO users(`Name`) VALUES (?),(?)'',
                      Some [DString ''a'', DString ''b''])],
      env_l = Some [sample_log_row, sample_log_row],
      env_d = Some [sample_dirty_row, sample_dirty_row]\<rparr>"

section \<open>The ids of a batched INSERT\<close>

lemma injectBind_fields:
  "injectBind schema orm bind = Inr orm1 \<Longrightarrow> idElem orm1 = idElem orm \<and> loaded orm1 \<and> inDB orm1"
  by (auto simp: injectBind_def initDBData_def Let_def split: sum.splits if_splits)

lemma count_unset_cong:
  "(\<And>eb. eb \<in> set xs \<Longrightarrow> st1 (fst eb) = st (fst eb)) \<Longrightarrow> count_unset st1 xs = count_unset st xs"
  by (simp add: count_unset_def cong: filter_cong)

lemma insert_loop_spec:
  "insert_loop schema autoincrement batch L st = Inr (st', calls) \<Longrightarrow> distinct (map fst batch) \<Longrightarrow>
   length calls = length batch
   \<and> (\<forall>a. a \<notin> fst ` set batch \<longrightarrow> st' a = st a)
   \<and> (\<forall>k < length batch.
         loaded (st' (fst (batch ! k))) \<and> inDB (st' (fst (batch ! k)))
         \<and> (idElem (st (fst (batch ! k))) = 0 \<longrightarrow>
              idElem (st' (fst (batch ! k))) = L + of_nat (count_unset st (take k batch)) * autoincrement
              \<and> dBData (st' (fst (batch ! k))) \<noteq> []
              \<and> dBData (st' (fst (batch ! k))) ! 0
                  = DUint64 (L + of_nat (count_unset st (take k batch)) * autoincrement)
              \<and> calls ! k = (fst (batch ! k), L + of_nat (count_unset st (take k batch)) * autoincrement))
         \<and> (idElem (st (fst (batch ! k))) \<noteq> 0 \<longrightarrow>
              idElem (st' (fst (batch ! k))) = idElem (st (fst (batch ! k)))
              \<and> calls ! k = (fst (batch ! k), idElem (st (fst (batch ! k))))))"
proof (induction batch arbitrary: L st st' calls)
  case Nil
  then show ?case by simp
next
  case (Cons eb rest)
  let ?a = "fst eb"
  from Cons.prems(2) have dist: "distinct (map fst rest)" and notin: "?a \<notin> fst ` set rest"
    by simp_all
  from Cons.prems(1) obtain orm1 where inj: "injectBind schema (st ?a) (snd eb) = Inr orm1"
    by (auto split: sum.splits)
  from injectBind_fields [OF inj] have o1: "idElem orm1 = idElem (st ?a)" "loaded orm1" "inDB orm1"
    by simp_all
  show ?case
  proof (cases "idElem (st ?a) = 0")
    case True
    let ?orm2 = "orm1\<lparr>idElem := L, dBData := (dBData orm1)[0 := DUint64 L]\<rparr>"
    let ?st1 = "st(?a := ?orm2)"
    from Cons.prems(1) inj o1 True obtain r where
      ne: "dBData orm1 \<noteq> []"
      and rec: "insert_loop schema autoincrement rest (L + autoincrement) ?st1 = Inr r"
      and res: "st' = fst r" "calls = (?a, L) # snd r"
      by (auto split: sum.splits if_splits)
    from rec have rec': "insert_loop schema autoincrement rest (L + autoincrement) ?st1 = Inr (fst r, snd r)"
      by simp
    note IH = Cons.IH [OF rec' dist]
    have same: "\<And>x. x \<in> set rest \<Longrightarrow> ?st1 (fst x) = st (fst x)"
    proof -
      fix x assume "x \<in> set rest"
      then have "fst x \<in> fst ` set rest" by simp
      with notin have "fst x \<noteq> ?a" by metis
      then show "?st1 (fst x) = st (fst x)" by simp
    qed
    have cnt: "\<And>k. count_unset ?st1 (take k rest) = count_unset st (take k rest)"
    proof -
      fix k
      show "count_unset ?st1 (take k rest) = count_unset st (take k rest)"
      proof (rule count_unset_cong)
        fix x assume "x \<in> set (take k rest)"
        then have "x \<in> set rest" by (rule in_set_takeD)
        then show "?st1 (fst x) = st (fst x)" by (rule same)
      qed
    qed
    have head: "st' ?a = ?orm2"
      using IH notin res by simp
    have len: "length calls = length (eb # rest)"
      using IH res by simp
    have frame: "\<forall>a. a \<notin> fst ` set (eb # rest) \<longrightarrow> st' a = st a"
      using IH res by auto
    have step: "\<forall>k < length (eb # rest).
         loaded (st' (fst ((eb # rest) ! k))) \<and> inDB (st' (fst ((eb # rest) ! k)))
         \<and> (idElem (st (fst ((eb # rest) ! k))) = 0 \<longrightarrow>
              idElem (st' (fst ((eb # rest) ! k))) = L + of_nat (count_unset st (take k (eb # rest))) * autoincrement
              \<and> dBData (st' (fst ((eb # rest) ! k))) \<noteq> []
              \<and> dBData (st' (fst ((eb # rest) ! k))) ! 0
                  = DUint64 (L + of_nat (count_unset st (take k (eb # rest))) * autoincrement)
              \<and> calls ! k = (fst ((eb # rest) ! k), L + of_nat (count_unset st (take k (eb # rest))) * autoincrement))
         \<and> (idElem (st (fst ((eb # rest) ! k))) \<noteq> 0 \<longrightarrow>
              idElem (st' (fst ((eb # rest) ! k))) = idElem (st (fst ((eb # rest) ! k)))
              \<and> calls ! k = (fst ((eb # rest) ! k), idElem (st (fst ((eb # rest) ! k)))))"
    proof (intro allI impI)
      fix k assume k: "k < length (eb # rest)"
      show "loaded (st' (fst ((eb # rest) ! k))) \<and> inDB (st' (fst ((eb # rest) ! k)))
         \<and> (idElem (st (fst ((eb # rest) ! k))) = 0 \<longrightarrow>
              idElem (st' (fst ((eb # rest) ! k))) = L + of_nat (count_unset st (take k (eb # rest))) * autoincrement
              \<and> dBData (st' (fst ((eb # rest) ! k))) \<noteq> []
              \<and> dBData (st' (fst ((eb # rest) ! k))) ! 0
                  = DUint64 (L + of_nat (count_unset st (take k (eb # rest))) * autoincrement)
              \<and> calls ! k = (fst ((eb # rest) ! k), L + of_nat (count_unset st (take k (eb # rest))) * autoincrement))
         \<and> (idElem (st (fst ((eb # rest) ! k))) \<noteq> 0 \<longrightarrow>
              idElem (st' (fst ((eb # rest) ! k))) = idElem (st (fst ((eb # rest) ! k)))
              \<and> calls ! k = (fst ((eb # rest) ! k), idElem (st (fst ((eb # rest) ! k)))))"
      proof (cases k)
        case 0
        with head o1 ne True res show ?thesis
          by (simp add: count_unset_def)
      next
        case (Suc k')
        with k have k': "k' < length rest" by simp
        then have mem: "rest ! k' \<in> set rest" by simp
        have s1: "?st1 (fst (rest ! k')) = st (fst (rest ! k'))"
          using same [OF mem] .
        have c: "count_unset st (take k (eb # rest)) = Suc (count_unset st (take k' rest))"
          using Suc True by (simp add: count_unset_def)
        have eq: "L + of_nat (count_unset st (take k (eb # rest))) * autoincrement
                 = L + autoincrement + of_nat (count_unset ?st1 (take k' rest)) * autoincrement"
          by (simp add: c cnt algebra_simps)
        have nth: "(eb # rest) ! k = rest ! k'" "calls ! k = snd r ! k'"
          using Suc res by simp_all
        from IH k' have
          "loaded (fst r (fst (rest ! k'))) \<and> inDB (fst r (fst (rest ! k')))
           \<and> (idElem (?st1 (fst (rest ! k'))) = 0 \<longrightarrow>
              idElem (fst r (fst (rest ! k')))
                = L + autoincrement + of_nat (count_unset ?st1 (take k' rest)) * autoincrement
              \<and> dBData (fst r (fst (rest ! k'))) \<noteq> []
              \<and> dBData (fst r (fst (rest ! k'))) ! 0
                  = DUint64 (L + autoincrement + of_nat (count_unset ?st1 (take k' rest)) * autoincrement)
              \<and> snd r ! k' = (fst (rest ! k'),
                    L + autoincrement + of_nat (count_unset ?st1 (take k' rest)) * autoincrement))
           \<and> (idElem (?st1 (fst (rest ! k'))) \<noteq> 0 \<longrightarrow>
              idElem (fst r (fst (rest ! k'))) = idElem (?st1 (fst (rest ! k')))
              \<and> snd r ! k' = (fst (rest ! k'), idElem (?st1 (fst (rest ! k')))))"
          by blast
        then show ?thesis
          unfolding eq nth res(1) s1 by blast
      qed
    qed
    from len frame step show ?thesis by blast
  next
    case False
    let ?st1 = "st(?a := orm1)"
    from Cons.prems(1) inj o1 False obtain r where
      rec: "insert_loop schema autoincrement rest L ?st1 = Inr r"
      and res: "st' = fst r" "calls = (?a, idElem orm1) # snd r"
      by (auto split: sum.splits if_splits)
    from rec have rec': "insert_loop schema autoincrement rest L ?st1 = Inr (fst r, snd r)"
      by simp
    note IH = Cons.IH [OF rec' dist]
    have same: "\<And>x. x \<in> set rest \<Longrightarrow> ?st1 (fst x) = st (fst x)"
    proof -
      fix x assume "x \<in> set rest"
      then have "fst x \<in> fst ` set rest" by simp
      with notin have "fst x \<noteq> ?a" by metis
      then show "?st1 (fst x) = st (fst x)" by simp
    qed
    have cnt: "\<And>k. count_unset ?st1 (take k rest) = count_unset st (take k rest)"
    proof -
      fix k
      show "count_unset ?st1 (take k rest) = count_unset st (take k rest)"
      proof (rule count_unset_cong)
        fix x assume "x \<in> set (take k rest)"
        then have "x \<in> set rest" by (rule in_set_takeD)
        then show "?st1 (fst x) = st (fst x)" by (rule same)
      qed
    qed
    have head: "st' ?a = orm1"
      using IH notin res by simp
    have len: "length calls = length (eb # rest)"
      using IH res by simp
    have frame: "\<forall>a. a \<notin> fst ` set (eb # rest) \<longrightarrow> st' a = st a"
      using IH res by auto
    have step: "\<forall>k < length (eb # rest).
         loaded (st' (fst ((eb # rest) ! k))) \<and> inDB (st' (fst ((eb # rest) ! k)))
         \<and> (idElem (st (fst ((eb # rest) ! k))) = 0 \<longrightarrow>
              idElem (st' (fst ((eb # rest) ! k))) = L + of_nat (count_unset st (take k (eb # rest))) * autoincrement
              \<and> dBData (st' (fst ((eb # rest) ! k))) \<noteq> []
              \<and> dBData (st' (fst ((eb # rest) ! k))) ! 0
                  = DUint64 (L + of_nat (count_unset st (take k (eb # rest))) * autoincrement)
              \<and> calls ! k = (fst ((eb # rest) ! k), L + of_nat (count_unset st (take k (eb # rest))) * autoincrement))
         \<and> (idElem (st (fst ((eb # rest) ! k))) \<noteq> 0 \<longrightarrow>
              idElem (st' (fst ((eb # rest) ! k))) = idElem (st (fst ((eb # rest) ! k)))
              \<and> calls ! k = (fst ((eb # rest) ! k), idElem (st (fst ((eb # rest) ! k)))))"
    proof (intro allI impI)
      fix k assume k: "k < length (eb # rest)"
      show "loaded (st' (fst ((eb # rest) ! k))) \<and> inDB (st' (fst ((eb # rest) ! k)))
         \<and> (idElem (st (fst ((eb # rest) ! k))) = 0 \<longrightarrow>
              idElem (st' (fst ((eb # rest) ! k))) = L + of_nat (count_unset st (take k (eb # rest))) * autoincrement
              \<and> dBData (st' (fst ((eb # rest) ! k))) \<noteq> []
              \<and> dBData (st' (fst ((eb # rest) ! k))) ! 0
                  = DUint64 (L + of_nat (count_unset st (take k (eb # rest))) * autoincrement)
              \<and> calls ! k = (fst ((eb # rest) ! k), L + of_nat (count_unset st (take k (eb # rest))) * autoincrement))
         \<and> (idElem (st (fst ((eb # rest) ! k))) \<noteq> 0 \<longrightarrow>
              idElem (st' (fst ((eb # rest) ! k))) = idElem (st (fst ((eb # rest) ! k)))
              \<and> calls ! k = (fst ((eb # rest) ! k), idElem (st (fst ((eb # rest) ! k)))))"
      proof (cases k)
        case 0
        with head o1 False res show ?thesis
          by simp
      next
        case (Suc k')
        with k have k': "k' < length rest" by simp
        then have mem: "rest ! k' \<in> set rest" by simp
        have s1: "?st1 (fst (rest ! k')) = st (fst (rest ! k'))"
          using same [OF mem] .
        have c: "count_unset st (take k (eb # rest)) = count_unset st (take k' rest)"
          using Suc False by (simp add: count_unset_def)
        have eq: "L + of_nat (count_unset st (take k (eb # rest))) * autoincrement
                 = L + of_nat (count_unset ?st1 (take k' rest)) * autoincrement"
          by (simp add: c cnt)
        have nth: "(eb # rest) ! k = rest ! k'" "calls ! k = snd r ! k'"
          using Suc res by simp_all
        from IH k' have
          "loaded (fst r (fst (rest ! k'))) \<and> inDB (fst r (fst (rest ! k')))
           \<and> (idElem (?st1 (fst (rest ! k'))) = 0 \<longrightarrow>
              idElem (fst r (fst (rest ! k')))
                = L + of_nat (count_unset ?st1 (take k' rest)) * autoincrement
              \<and> dBData (fst r (fst (rest ! k'))) \<noteq> []
              \<and> dBData (fst r (fst (rest ! k'))) ! 0
                  = DUint64 (L + of_nat (count_unset ?st1 (take k' rest)) * autoincrement)
              \<and> snd r ! k' = (fst (rest ! k'),
                    L + of_nat (count_unset ?st1 (take k' rest)) * autoincrement))
           \<and> (idElem (?st1 (fst (rest ! k'))) \<noteq> 0 \<longrightarrow>
              idElem (fst r (fst (rest ! k'))) = idElem (?st1 (fst (rest ! k')))
              \<and> snd r ! k' = (fst (rest ! k'), idElem (?st1 (fst (rest ! k')))))"
          by blast
        then show ?thesis
          unfolding eq nth res(1) s1 by blast
      qed
    qed
    from len frame step show ?thesis by blast
  qed
qed


lemma inject_loop_returns:
  "(\<forall>key i. mapping key = Some i \<longrightarrow> i < length d) \<Longrightarrow> d \<noteq> [] \<Longrightarrow>
   \<exists>d'. inject_loop mapping bind d = Inr d' \<and> length d' = length d"
proof (induction bind arbitrary: d)
  case Nil
  then show ?case by simp
next
  case (Cons kv bind)
  let ?i = "case mapping (fst kv) of None \<Rightarrow> 0 | Some i \<Rightarrow> i"
  have i: "?i < length d"
    using Cons.prems by (cases "mapping (fst kv)") auto
  have "(\<forall>key i. mapping key = Some i \<longrightarrow> i < length (d[?i := snd kv]))" and "d[?i := snd kv] \<noteq> []"
    using Cons.prems by simp_all
  from Cons.IH [OF this] i show ?case
    by (simp add: Let_def)
qed

lemma injectBind_returns:
  assumes "columnNames schema \<noteq> []"
    and "\<forall>key i. columnMapping schema key = Some i \<longrightarrow> i < length (columnNames schema)"
    and "dBData orm = [] \<or> length (dBData orm) = length (columnNames schema)"
  shows "\<exists>orm1. injectBind schema orm bind = Inr orm1
           \<and> length (dBData orm1) = length (columnNames schema)"
proof -
  have l: "length (dBData (initDBData schema orm)) = length (columnNames schema)"
    using assms(3) by (auto simp: initDBData_def)
  then have "\<forall>key i. columnMapping schema key = Some i \<longrightarrow> i < length (dBData (initDBData schema orm))"
    and "dBData (initDBData schema orm) \<noteq> []"
    using assms(1,2) by auto
  from inject_loop_returns [OF this] obtain d' where
    "inject_loop (columnMapping schema) bind (dBData (initDBData schema orm)) = Inr d'"
    and "length d' = length (dBData (initDBData schema orm))"
    by blast
  with l show ?thesis
    by (simp add: injectBind_def Let_def)
qed

lemma insert_loop_returns:
  "batch_fits schema st batch \<Longrightarrow> \<exists>r. insert_loop schema autoincrement batch L st = Inr r"
proof (induction batch arbitrary: L st)
  case Nil
  then show ?case by simp
next
  case (Cons eb rest)
  from Cons.prems have cols: "columnNames schema \<noteq> []"
    and mp: "\<forall>key i. columnMapping schema key = Some i \<longrightarrow> i < length (columnNames schema)"
    and here: "dBData (st (fst eb)) = [] \<or> length (dBData (st (fst eb))) = length (columnNames schema)"
    and rest: "\<forall>x \<in> set rest. dBData (st (fst x)) = []
                 \<or> length (dBData (st (fst x))) = length (columnNames schema)"
    by (simp_all add: batch_fits_def)
  from injectBind_returns [OF cols mp here] obtain orm1 where
    inj: "injectBind schema (st (fst eb)) (snd eb) = Inr orm1"
    and len: "length (dBData orm1) = length (columnNames schema)"
    by blast
  from len cols have ne: "dBData orm1 \<noteq> []" by auto
  have fits: "\<And>o'. length (dBData o') = length (columnNames schema) \<Longrightarrow>
               batch_fits schema (st(fst eb := o')) rest"
    using cols mp rest by (simp add: batch_fits_def)
  show ?case
  proof (cases "idElem orm1 = 0")
    case True
    let ?o2 = "orm1\<lparr>idElem := L, dBData := (dBData orm1)[0 := DUint64 L]\<rparr>"
    have "length (dBData ?o2) = length (columnNames schema)"
      using len by simp
    from Cons.IH [OF fits [OF this], of "L + autoincrement"] obtain r where
      "insert_loop schema autoincrement rest (L + autoincrement) (st(fst eb := ?o2)) = Inr r"
      by blast
    with inj True ne show ?thesis
      by simp
  next
    case False
    from Cons.IH [OF fits [OF len], of L] obtain r where
      "insert_loop schema autoincrement rest L (st(fst eb := orm1)) = Inr r"
      by blast
    with inj False show ?thesis
      by simp
  qed
qed

lemma count_unset_all:
  "\<forall>eb \<in> set batch. idElem (st (fst eb)) = 0 \<Longrightarrow> k \<le> length batch \<Longrightarrow> count_unset st (take k batch) = k"
proof -
  assume a: "\<forall>eb \<in> set batch. idElem (st (fst eb)) = 0" and k: "k \<le> length batch"
  have "\<forall>x \<in> set (take k batch). idElem (st (fst x)) = 0"
    using a by (auto dest: in_set_takeD)
  then have "filter (\<lambda>eb. idElem (st (fst eb)) = 0) (take k batch) = take k batch"
    by (simp add: filter_id_conv)
  with k show ?thesis by (simp add: count_unset_def)
qed

text \<open>
  Claim C1, as stated, fails: in a batch of three new entities of which the second was
  given the id 7 before the flush, with \<open>LastInsertId\<close> 100 and autoincrement 1, the
  second entity keeps 7 (not 101) and the third receives 101 (not 102).
\<close>

theorem preset_id_counterexample:
  "(case insert_loop sample_table 1 sample_batch 100 sample_store of
      Inl e \<Rightarrow> False
    | Inr r \<Rightarrow> map (\<lambda>a. idElem (fst r a)) [0, 1, 2] = [100, 7, 101]
             \<and> snd r = [(0, 100), (1, 7), (2, 101)])"
  by (simp add: sample_table_def sample_batch_def sample_store_def injectBind_def initDBData_def Let_def)

text \<open>
  Claim C1, amended. For a non-lazy batched INSERT of distinct new entities of one type,
  with \<open>LastInsertId\<close> \<open>L\<close> and autoincrement \<open>A\<close>: the loop returns when the schema has its
  \<open>ID\<close> column, the mapping stays within the columns and each \<open>dBData\<close> is nil or of full
  length; and when it returns, every entity is \<open>loaded\<close> and \<open>inDB\<close>, an entity whose
  \<open>ID\<close> was zero has \<open>L + j * A\<close> (in 64-bit arithmetic) in its \<open>ID\<close> field and in
  \<open>dBData[0]\<close> and passed to the cache update, \<open>j\<close> being the number of entities before
  it in the batch whose \<open>ID\<close> was zero, and an entity whose \<open>ID\<close> was set keeps it and
  takes no id from the sequence. When every \<open>ID\<close> was zero, the \<open>k\<close>-th entity has
  \<open>L + k * A\<close>.
\<close>

theorem batch_insert_ids:
  assumes "distinct (map fst batch)" and "k < length batch"
  shows "(batch_fits schema st batch \<longrightarrow> (\<exists>r. insert_loop schema autoincrement batch L st = Inr r))
       \<and> (insert_loop schema autoincrement batch L st = Inr (st', calls) \<longrightarrow>
            loaded (st' (fst (batch ! k))) \<and> inDB (st' (fst (batch ! k)))
            \<and> (idElem (st (fst (batch ! k))) = 0 \<longrightarrow>
                 idElem (st' (fst (batch ! k))) = L + of_nat (count_unset st (take k batch)) * autoincrement
                 \<and> dBData (st' (fst (batch ! k))) \<noteq> []
                 \<and> dBData (st' (fst (batch ! k))) ! 0
                     = DUint64 (L + of_nat (count_unset st (take k batch)) * autoincrement)
                 \<and> calls ! k = (fst (batch ! k), L + of_nat (count_unset st (take k batch)) * autoincrement))
            \<and> (idElem (st (fst (batch ! k))) \<noteq> 0 \<longrightarrow>
                 idElem (st' (fst (batch ! k))) = idElem (st (fst (batch ! k)))
                 \<and> calls ! k = (fst (batch ! k), idElem (st (fst (batch ! k)))))
            \<and> ((\<forall>eb \<in> set batch. idElem (st (fst eb)) = 0) \<longrightarrow>
                 idElem (st' (fst (batch ! k))) = L + of_nat k * autoincrement
                 \<and> dBData (st' (fst (batch ! k))) ! 0 = DUint64 (L + of_nat k * autoincrement)))"
proof (intro conjI impI)
  assume "batch_fits schema st batch"
  then show "\<exists>r. insert_loop schema autoincrement batch L st = Inr r"
    by (rule insert_loop_returns)
next
  assume r: "insert_loop schema autoincrement batch L st = Inr (st', calls)"
  note spec = insert_loop_spec [OF r assms(1)]
  from spec assms(2) show "loaded (st' (fst (batch ! k)))" "inDB (st' (fst (batch ! k)))"
    by blast+
  {
    assume z: "idElem (st (fst (batch ! k))) = 0"
    from spec assms(2) z
    show "idElem (st' (fst (batch ! k))) = L + of_nat (count_unset st (take k batch)) * autoincrement"
      "dBData (st' (fst (batch ! k))) \<noteq> []"
      "dBData (st' (fst (batch ! k))) ! 0 = DUint64 (L + of_nat (count_unset st (take k batch)) * autoincrement)"
      "calls ! k = (fst (batch ! k), L + of_nat (count_unset st (take k batch)) * autoincrement)"
      by blast+
  }
  {
    assume nz: "idElem (st (fst (batch ! k))) \<noteq> 0"
    from spec assms(2) nz
    show "idElem (st' (fst (batch ! k))) = idElem (st (fst (batch ! k)))"
      "calls ! k = (fst (batch ! k), idElem (st (fst (batch ! k))))"
      by blast+
  }
  {
    assume all: "\<forall>eb \<in> set batch. idElem (st (fst eb)) = 0"
    then have z: "idElem (st (fst (batch ! k))) = 0"
      using assms(2) by simp
    have c: "count_unset st (take k batch) = k"
      using count_unset_all [OF all] assms(2) by simp
    from spec assms(2) z c
    show "idElem (st' (fst (batch ! k))) = L + of_nat k * autoincrement"
      "dBData (st' (fst (batch ! k))) ! 0 = DUint64 (L + of_nat k * autoincrement)"
      by (metis)+
  }
qed


theorem batch_insert_ids_witness:
  "(\<exists>r. insert_loop sample_table 1 sample_batch 100 sample_store = Inr r
      \<and> idElem (fst r 0) = 100 \<and> idElem (fst r 1) = 7 \<and> idElem (fst r 2) = 101
      \<and> dBData (fst r 2) ! 0 = DUint64 101 \<and> loaded (fst r 2) \<and> inDB (fst r 2)
      \<and> snd r ! 2 = (2, 101))
   \<and> (\<exists>r. insert_loop sample_table 2 [sample_batch ! 0, sample_batch ! 2] 100 sample_store = Inr r
      \<and> idElem (fst r 2) = 100 + 1 * 2 \<and> dBData (fst r 2) ! 0 = DUint64 (100 + 1 * 2))"
proof -
  have d: "distinct (map fst sample_batch)"
    by (simp add: sample_batch_def)
  have k: "0 < length sample_batch" "1 < length sample_batch" "2 < length sample_batch"
    by (simp_all add: sample_batch_def)
  have fits: "batch_fits sample_table sample_store sample_batch"
    by (simp add: batch_fits_def sample_table_def sample_store_def sample_batch_def)
  from batch_insert_ids [OF d k(1), of sample_table sample_store 1 100] fits
  obtain r where run: "insert_loop sample_table 1 sample_batch 100 sample_store = Inr r"
    by blast
  then have run': "insert_loop sample_table 1 sample_batch 100 sample_store = Inr (fst r, snd r)"
    by simp
  have e: "fst (sample_batch ! 0) = 0" "fst (sample_batch ! 1) = 1" "fst (sample_batch ! 2) = 2"
    by (simp_all add: sample_batch_def)
  have i: "idElem (sample_store 0) = 0" "idElem (sample_store 1) \<noteq> 0" "idElem (sample_store 1) = 7"
    "idElem (sample_store 2) = 0"
    by (simp_all add: sample_store_def)
  have c: "count_unset sample_store (take 0 sample_batch) = 0"
    "count_unset sample_store (take 2 sample_batch) = 1"
    by (simp_all add: count_unset_def sample_batch_def sample_store_def)
  from batch_insert_ids [OF d k(1), of sample_table sample_store 1 100 "fst r" "snd r"] run' e i c
  have "idElem (fst r 0) = 100" by simp
  moreover from batch_insert_ids [OF d k(2), of sample_table sample_store 1 100 "fst r" "snd r"] run' e i
  have "idElem (fst r 1) = 7" by simp
  moreover from batch_insert_ids [OF d k(3), of sample_table sample_store 1 100 "fst r" "snd r"] run' e i c
  have "idElem (fst r 2) = 101" "dBData (fst r 2) ! 0 = DUint64 101" "loaded (fst r 2)" "inDB (fst r 2)"
    "snd r ! 2 = (2, 101)"
    by simp_all
  ultimately have first: "\<exists>r. insert_loop sample_table 1 sample_batch 100 sample_store = Inr r
      \<and> idElem (fst r 0) = 100 \<and> idElem (fst r 1) = 7 \<and> idElem (fst r 2) = 101
      \<and> dBData (fst r 2) ! 0 = DUint64 101 \<and> loaded (fst r 2) \<and> inDB (fst r 2)
      \<and> snd r ! 2 = (2, 101)"
    using run by blast
  let ?b = "[sample_batch ! 0, sample_batch ! 2]"
  have d2: "distinct (map fst ?b)" and k2: "1 < length ?b"
    by (simp_all add: sample_batch_def)
  have fits2: "batch_fits sample_table sample_store ?b"
    by (simp add: batch_fits_def sample_table_def sample_store_def sample_batch_def)
  have all0: "\<forall>eb \<in> set ?b. idElem (sample_store (fst eb)) = 0"
    by (simp add: sample_batch_def sample_store_def)
  have e2: "fst (?b ! 1) = 2"
    by (simp add: sample_batch_def)
  from batch_insert_ids [OF d2 k2, of sample_table sample_store 2 100] fits2
  obtain r2 where run2: "insert_loop sample_table 2 ?b 100 sample_store = Inr r2"
    by blast
  then have run2': "insert_loop sample_table 2 ?b 100 sample_store = Inr (fst r2, snd r2)"
    by simp
  from batch_insert_ids [OF d2 k2, of sample_table sample_store 2 100 "fst r2" "snd r2"] run2' all0
  have x: "idElem (fst r2 (fst (?b ! 1))) = 100 + of_nat 1 * 2
           \<and> dBData (fst r2 (fst (?b ! 1))) ! 0 = DUint64 (100 + of_nat 1 * 2)"
    by blast
  have "idElem (fst r2 2) = 100 + 1 * 2" "dBData (fst r2 2) ! 0 = DUint64 (100 + 1 * 2)"
    using x e2 by simp_all
  with run2 have second: "\<exists>r. insert_loop sample_table 2 ?b 100 sample_store = Inr r
      \<and> idElem (fst r 2) = 100 + 1 * 2 \<and> dBData (fst r 2) ! 0 = DUint64 (100 + 1 * 2)"
    by blast
  from first second show ?thesis by blast
qed

section \<open>Replaying a lazy envelope\<close>

lemma stamp_log_rows_nth:
  "stamp_log_rows a L rows = (rows', L') \<Longrightarrow>
   length rows' = length rows \<and> L' = L + of_nat (length rows) * a
   \<and> (\<forall>k < length rows. rows' ! k = (rows ! k)\<lparr>row_ID := L + of_nat k * a\<rparr>)"
proof (induction rows arbitrary: L rows' L')
  case Nil
  then show ?case by simp
next
  case (Cons row rest)
  from Cons.prems obtain rs where
    rec: "stamp_log_rows a (L + a) rest = (rs, L')" and r: "rows' = row\<lparr>row_ID := L\<rparr> # rs"
    by (auto split: prod.splits)
  from Cons.IH [OF rec] have len: "length rs = length rest"
    and last: "L' = L + a + of_nat (length rest) * a"
    and nth: "\<forall>k < length rest. rs ! k = (rest ! k)\<lparr>row_ID := L + a + of_nat k * a\<rparr>"
    by simp_all
  have "\<forall>k < length (row # rest). rows' ! k = ((row # rest) ! k)\<lparr>row_ID := L + of_nat k * a\<rparr>"
  proof (intro allI impI)
    fix k assume "k < length (row # rest)"
    then show "rows' ! k = ((row # rest) ! k)\<lparr>row_ID := L + of_nat k * a\<rparr>"
      using nth r by (cases k) (simp_all add: algebra_simps)
  qed
  with len last r show ?case by (simp add: algebra_simps)
qed

lemma stamp_dirty_rows_nth:
  "stamp_dirty_rows a L rows = (rows', L') \<Longrightarrow>
   length rows' = length rows \<and> L' = L + of_nat (length rows) * a
   \<and> (\<forall>k < length rows. rows' ! k = (rows ! k)\<lparr>event_I := L + of_nat k * a\<rparr>)"
proof (induction rows arbitrary: L rows' L')
  case Nil
  then show ?case by simp
next
  case (Cons row rest)
  from Cons.prems obtain rs where
    rec: "stamp_dirty_rows a (L + a) rest = (rs, L')" and r: "rows' = row\<lparr>event_I := L\<rparr> # rs"
    by (auto split: prod.splits)
  from Cons.IH [OF rec] have len: "length rs = length rest"
    and last: "L' = L + a + of_nat (length rest) * a"
    and nth: "\<forall>k < length rest. rs ! k = (rest ! k)\<lparr>event_I := L + a + of_nat k * a\<rparr>"
    by simp_all
  have "\<forall>k < length (row # rest). rows' ! k = ((row # rest) ! k)\<lparr>event_I := L + of_nat k * a\<rparr>"
  proof (intro allI impI)
    fix k assume "k < length (row # rest)"
    then show "rows' ! k = ((row # rest) ! k)\<lparr>event_I := L + of_nat k * a\<rparr>"
      using nth r by (cases k) (simp_all add: algebra_simps)
  qed
  with len last r show ?case by (simp add: algebra_simps)
qed

text \<open>
  What an \<open>INSERT INTO\<close> entry does to an envelope that has both lists: the \<open>k\<close>-th log
  row receives \<open>L + k * A\<close>, and the \<open>k\<close>-th dirty row receives \<open>L + (n + k) * A\<close>, where \<open>n\<close>
  is the number of log rows, because the variable \<open>id\<close> is not set back to \<open>L\<close> between
  the two loops.
\<close>

lemma insert_query_stamps:
  assumes "db_exec c db code sql args = Inr (L, db')" and "11 \<le> length sql" and "take 11 sql = ''INSERT INTO''"
    and "queries_loop c [(code, sql, args)] (db, Some logEvents, Some dirtyEvents) = Inr (ids, db2, l, d)"
  shows "ids = [L]
       \<and> l = Some (map (\<lambda>k. (logEvents ! k)\<lparr>row_ID := L + of_nat k * db_autoincrement c code\<rparr>)
                      [0 ..< length logEvents])
       \<and> d = Some (map (\<lambda>k. (dirtyEvents ! k)\<lparr>event_I := L + of_nat (length logEvents + k) * db_autoincrement c code\<rparr>)
                      [0 ..< length dirtyEvents])"
proof -
  obtain lr L1 where sl: "stamp_log_rows (db_autoincrement c code) L logEvents = (lr, L1)"
    by (cases "stamp_log_rows (db_autoincrement c code) L logEvents")
  obtain dr L2 where sd: "stamp_dirty_rows (db_autoincrement c code) L1 dirtyEvents = (dr, L2)"
    by (cases "stamp_dirty_rows (db_autoincrement c code) L1 dirtyEvents")
  note a = stamp_log_rows_nth [OF sl] and b = stamp_dirty_rows_nth [OF sd]
  have lr: "lr = map (\<lambda>k. (logEvents ! k)\<lparr>row_ID := L + of_nat k * db_autoincrement c code\<rparr>)
                      [0 ..< length logEvents]"
    using a by (auto intro!: nth_equalityI)
  have dr: "dr = map (\<lambda>k. (dirtyEvents ! k)\<lparr>event_I := L + of_nat (length logEvents + k) * db_autoincrement c code\<rparr>)
                      [0 ..< length dirtyEvents]"
    using a b by (auto intro!: nth_equalityI simp: algebra_simps)
  from assms sl sd have "ids = [L] \<and> l = Some lr \<and> d = Some dr"
    by (auto simp: Let_def)
  with lr dr show ?thesis by simp
qed

text \<open>
  Claim C2, at an envelope with one INSERT of two rows, two log rows and two dirty rows,
  \<open>LastInsertId\<close> 10 and autoincrement 1: the log rows receive 10 and 11, and the dirty
  rows receive 12 and 13, where the claim has each list numbered from 10 by its own
  position, that is 10 and 11 for the dirty rows as well.
\<close>

theorem replay_numbers_dirty_rows_after_log_rows:
  "handleQueries sample_db () sample_envelope
     = Inr (Some [10], (),
            sample_envelope\<lparr>env_l := Some [sample_log_row\<lparr>row_ID := 10\<rparr>, sample_log_row\<lparr>row_ID := 11\<rparr>],
                             env_d := Some [sample_dirty_row\<lparr>event_I := 12\<rparr>, sample_dirty_row\<lparr>event_I := 13\<rparr>]\<rparr>,
            [sample_log_row\<lparr>row_ID := 10\<rparr>, sample_log_row\<lparr>row_ID := 11\<rparr>],
            [(''user_changed'', sample_dirty_row\<lparr>event_I := 12\<rparr>),
             (''user_changed'', sample_dirty_row\<lparr>event_I := 13\<rparr>)])"
  by (simp add: handleQueries_def sample_db_def sample_envelope_def sample_dirty_row_def Let_def)

section \<open>Flushing and the tracked entities\<close>

lemma Clear_tracked [simp]:
  "trackedEntities (Clear f) = []" "trackedEntitiesCounter (Clear f) = 0"
  "updateSQLs (Clear f) = []" "deleteBinds (Clear f) = []"
  "localCacheDeletes (Clear f) = []" "localCacheSets (Clear f) = []"
  by (simp_all add: Clear_def clear_def)

lemma clear_fields [simp]:
  "trackedEntities (clear f) = trackedEntities f"
  "trackedEntitiesCounter (clear f) = trackedEntitiesCounter f"
  "updateSQLs (clear f) = []" "deleteBinds (clear f) = []"
  "localCacheDeletes (clear f) = []" "localCacheSets (clear f) = []"
  by (simp_all add: clear_def)

lemma keep_tracked_fields [simp]:
  "trackedEntities (keep_tracked f f') = trackedEntities f"
  "trackedEntitiesCounter (keep_tracked f f') = trackedEntitiesCounter f"
  by (simp_all add: keep_tracked_def)

lemma flush_call_tracked:
  "flush_call env root lazy transaction entities ws = Inr (w', f') \<Longrightarrow>
   trackedEntities f' = trackedEntities (snd ws) \<and> trackedEntitiesCounter f' = trackedEntitiesCounter (snd ws)"
  by (auto simp: flush_call_def split: sum.splits prod.splits)

lemma deferred_rollback_Inr:
  "deferred_rollback env transaction entities r = Inr (w', f') \<Longrightarrow> \<exists>w. r = Inr (w, f')"
  by (auto simp: deferred_rollback_def split: if_splits sum.splits prod.splits)

lemma flushTrackedEntities_returns:
  assumes "flushTrackedEntities env lazy transaction ws = Inr (w', f')"
  shows "trackedEntities f' = trackedEntities (snd ws)
       \<and> trackedEntitiesCounter f' = trackedEntitiesCounter (snd ws)
       \<and> (trackedEntitiesCounter (snd ws) = 0 \<longrightarrow> (w', f') = ws)
       \<and> (trackedEntitiesCounter (snd ws) \<noteq> 0 \<longrightarrow>
            updateSQLs f' = [] \<and> deleteBinds f' = [] \<and> localCacheDeletes f' = [] \<and> localCacheSets f' = [])"
proof (cases "trackedEntitiesCounter (snd ws) = 0")
  case True
  with assms show ?thesis by (simp add: flushTrackedEntities_def)
next
  case False
  with assms obtain w1 where
    d: "deferred_rollback env transaction (trackedEntities (snd ws))
          (case flush_call env True lazy transaction (trackedEntities (snd ws)) (w1, snd ws) of
             Inl p \<Rightarrow> Inl p
           | Inr (w2, f2) \<Rightarrow>
               (case (if transaction then env_commit env (trackedEntities (snd ws)) w2 else Inr w2) of
                  Inl (e, w3) \<Rightarrow> Inl (e, (w3, f2))
                | Inr w3 \<Rightarrow> Inr (w3, clear f2))) = Inr (w', f')"
    by (auto simp: flushTrackedEntities_def split: sum.splits prod.splits)
  from deferred_rollback_Inr [OF d] obtain w where
    "(case flush_call env True lazy transaction (trackedEntities (snd ws)) (w1, snd ws) of
             Inl p \<Rightarrow> Inl p
           | Inr (w2, f2) \<Rightarrow>
               (case (if transaction then env_commit env (trackedEntities (snd ws)) w2 else Inr w2) of
                  Inl (e, w3) \<Rightarrow> Inl (e, (w3, f2))
                | Inr w3 \<Rightarrow> Inr (w3, clear f2))) = Inr (w, f')"
    by blast
  then obtain w2 f2 where
    fc: "flush_call env True lazy transaction (trackedEntities (snd ws)) (w1, snd ws) = Inr (w2, f2)"
    and f': "f' = clear f2"
    by (auto split: sum.splits prod.splits)
  from flush_call_tracked [OF fc] f' False show ?thesis by simp
qed

text \<open>
  Claim C3. When the flush attempt that \<open>FlushWithCheck\<close> makes panics with the error \<open>e\<close>:
  if \<open>e\<close> is a \<open>*ForeignKeyError\<close> or a \<open>*DuplicatedKeyError\<close>, \<open>FlushWithCheck\<close> returns
  \<open>e\<close>; otherwise it panics again with \<open>e\<close>; \<open>FlushWithFullCheck\<close> returns \<open>e\<close> whatever
  it is. In each case the flusher has been through \<open>Clear\<close>, which leaves no tracked entity
  and a counter of zero. \<open>Flush\<close> itself lets the panic through (the hypothesis).
\<close>

theorem checked_flush_failure:
  assumes "Flush env ws = Inl (e, (w, f))"
  shows "((\<exists>m c. e = ForeignKeyError m c) \<or> (\<exists>m i. e = DuplicatedKeyError m i) \<longrightarrow>
            FlushWithCheck env ws = Inr (Some e, (w, Clear f)))
       \<and> (\<not> ((\<exists>m c. e = ForeignKeyError m c) \<or> (\<exists>m i. e = DuplicatedKeyError m i)) \<longrightarrow>
            FlushWithCheck env ws = Inl (e, (w, Clear f)))
       \<and> FlushWithFullCheck env ws = Inr (Some e, (w, Clear f))
       \<and> trackedEntities (Clear f) = [] \<and> trackedEntitiesCounter (Clear f) = 0"
  using assms
  by (cases e) (simp_all add: Flush_def FlushWithCheck_def flushWithCheck_def FlushWithFullCheck_def)

theorem checked_flush_failure_witness:
  "FlushWithCheck (failing_env (DuplicatedKeyError ''Duplicate entry'' ''Email'')) ((), one_tracked)
     = Inr (Some (DuplicatedKeyError ''Duplicate entry'' ''Email''), ((), Clear one_tracked))
   \<and> FlushWithCheck (failing_env (ForeignKeyError ''Cannot add or update a child row'' ''fk_user'')) ((), one_tracked)
     = Inr (Some (ForeignKeyError ''Cannot add or update a child row'' ''fk_user''), ((), Clear one_tracked))
   \<and> FlushWithCheck (failing_env (Errorf ''connection refused'')) ((), one_tracked)
     = Inl (Errorf ''connection refused'', ((), Clear one_tracked))
   \<and> FlushWithFullCheck (failing_env (Errorf ''connection refused'')) ((), one_tracked)
     = Inr (Some (Errorf ''connection refused''), ((), Clear one_tracked))
   \<and> trackedEntities (Clear one_tracked) = [] \<and> trackedEntitiesCounter (Clear one_tracked) = 0"
proof -
  have f: "\<And>e. Flush (failing_env e) ((), one_tracked) = Inl (e, ((), one_tracked))"
    by (simp add: Flush_def flushTrackedEntities_def failing_env_def one_tracked_def
        deferred_rollback_def flush_call_def keep_tracked_def)
  from checked_flush_failure [OF f [of "DuplicatedKeyError ''Duplicate entry'' ''Email''"]]
    checked_flush_failure [OF f [of "ForeignKeyError ''Cannot add or update a child row'' ''fk_user''"]]
    checked_flush_failure [OF f [of "Errorf ''connection refused''"]]
  show ?thesis by simp
qed

text \<open>
  Claim C4, as stated, fails: with one tracked entity that is not dirty, \<open>Flush\<close> returns
  and the entity is still tracked, the counter still 1.
\<close>

theorem flush_leaves_tracked_counterexample:
  "Flush clean_env ((), one_tracked) = Inr ((), one_tracked)
   \<and> trackedEntities one_tracked = [0] \<and> trackedEntitiesCounter one_tracked = 1"
  by (simp add: Flush_def flushTrackedEntities_def clean_env_def one_tracked_def
      deferred_rollback_def flush_call_def keep_tracked_def clear_def)

text \<open>
  Claim C4, amended. After a \<open>Flush\<close> that returns, the tracked-entity list and the
  counter are what they were before the call; when the counter was not zero the buffers
  \<open>updateSQLs\<close>, \<open>deleteBinds\<close>, \<open>localCacheDeletes\<close> and \<open>localCacheSets\<close> are reset; when
  it was zero the call changes nothing. The tracked entities leave through \<open>Clear\<close>.
\<close>

theorem flush_resets_buffers_only:
  assumes "Flush env ws = Inr (w', f')"
  shows "trackedEntities f' = trackedEntities (snd ws)
       \<and> trackedEntitiesCounter f' = trackedEntitiesCounter (snd ws)
       \<and> (trackedEntitiesCounter (snd ws) = 0 \<longrightarrow> (w', f') = ws)
       \<and> (trackedEntitiesCounter (snd ws) \<noteq> 0 \<longrightarrow>
            updateSQLs f' = [] \<and> deleteBinds f' = [] \<and> localCacheDeletes f' = [] \<and> localCacheSets f' = [])
       \<and> trackedEntities (Clear f') = [] \<and> trackedEntitiesCounter (Clear f') = 0"
  using flushTrackedEntities_returns [of env False False ws w' f'] assms
  by (simp add: Flush_def)

theorem flush_resets_buffers_only_witness:
  "Flush clean_env ((), one_tracked) = Inr ((), one_tracked)
   \<and> trackedEntities one_tracked = trackedEntities (snd ((), one_tracked))
   \<and> trackedEntitiesCounter one_tracked = trackedEntitiesCounter (snd ((), one_tracked))
   \<and> updateSQLs one_tracked = [] \<and> deleteBinds one_tracked = []
   \<and> localCacheDeletes one_tracked = [] \<and> localCacheSets one_tracked = []
   \<and> trackedEntities (Clear one_tracked) = [] \<and> trackedEntitiesCounter (Clear one_tracked) = 0
   \<and> Flush clean_env ((), NewFlusher) = Inr ((), NewFlusher)"
proof -
  have r: "Flush clean_env ((), one_tracked) = Inr ((), one_tracked)"
    by (simp add: Flush_def flushTrackedEntities_def clean_env_def one_tracked_def
        deferred_rollback_def flush_call_def keep_tracked_def clear_def)
  have n: "trackedEntitiesCounter (snd ((), one_tracked)) \<noteq> 0"
    by (simp add: one_tracked_def)
  have r0: "Flush clean_env ((), NewFlusher) = Inr ((), NewFlusher)"
    by (simp add: Flush_def flushTrackedEntities_def NewFlusher_def)
  have n0: "trackedEntitiesCounter (snd ((), NewFlusher :: nat flusher)) = 0"
    by (simp add: NewFlusher_def)
  from flush_resets_buffers_only [OF r] n flush_resets_buffers_only [OF r0] n0 r r0
  show ?thesis by simp
qed

section \<open>The bind pair of edited fields\<close>

lemma add_index_columns_ok:
  "add_index_columns schema elem cols binds = Inr binds' \<Longrightarrow> set cols \<subseteq> unique_columns schema \<Longrightarrow>
   bind_pair_ok schema (snd binds) (fst binds) \<Longrightarrow> bind_pair_ok schema (snd binds') (fst binds')"
proof (induction cols arbitrary: binds)
  case Nil
  then show ?case by simp
next
  case (Cons c cols)
  have c: "c \<in> unique_columns schema" and cols: "set cols \<subseteq> unique_columns schema"
    using Cons.prems(2) by simp_all
  have upd: "\<And>val. bind_pair_ok schema ((snd binds)(c \<mapsto> val)) ((fst binds)(c \<mapsto> val))"
    using Cons.prems(3) c by (auto simp: bind_pair_ok_def)
  show ?case
  proof (cases "bind_is_nil (fst binds) c")
    case False
    with Cons.prems(1) have "add_index_columns schema elem cols binds = Inr binds'"
      by simp
    from Cons.IH [OF this cols Cons.prems(3)] show ?thesis .
  next
    case True
    with Cons.prems(1) obtain setter where s: "fieldBindSetters schema c = Some setter"
      by (auto split: option.splits)
    show ?thesis
    proof (cases "setter (fieldByName schema elem c)")
      case (Panic e)
      with True s Cons.prems(1) show ?thesis by simp
    next
      case (Err e)
      with True s Cons.prems(1) have
        "add_index_columns schema elem cols ((fst binds)(c \<mapsto> DNil), (snd binds)(c \<mapsto> DNil)) = Inr binds'"
        by simp
      moreover have "bind_pair_ok schema (snd ((fst binds)(c \<mapsto> DNil), (snd binds)(c \<mapsto> DNil)))
                       (fst ((fst binds)(c \<mapsto> DNil), (snd binds)(c \<mapsto> DNil)))"
        using upd [of DNil] by simp
      ultimately show ?thesis using Cons.IH cols by blast
    next
      case (Ok val)
      with True s Cons.prems(1) have
        "add_index_columns schema elem cols ((fst binds)(c \<mapsto> val), (snd binds)(c \<mapsto> val)) = Inr binds'"
        by simp
      moreover have "bind_pair_ok schema (snd ((fst binds)(c \<mapsto> val), (snd binds)(c \<mapsto> val)))
                       (fst ((fst binds)(c \<mapsto> val), (snd binds)(c \<mapsto> val)))"
        using upd [of val] by simp
      ultimately show ?thesis using Cons.IH cols by blast
    qed
  qed
qed

lemma unique_indexes_loop_ok:
  "unique_indexes_loop schema field elem ixs binds = Inr binds' \<Longrightarrow> set ixs \<subseteq> set (uniqueIndexes schema) \<Longrightarrow>
   bind_pair_ok schema (snd binds) (fst binds) \<Longrightarrow> bind_pair_ok schema (snd binds') (fst binds')"
proof (induction ixs arbitrary: binds)
  case Nil
  then show ?case by simp
next
  case (Cons ix ixs)
  have sub: "set (snd ix) \<subseteq> unique_columns schema" and rest: "set ixs \<subseteq> set (uniqueIndexes schema)"
    using Cons.prems(2) by (auto simp: unique_columns_def)
  show ?case
  proof (cases "field \<in> set (snd ix)")
    case False
    with Cons.prems(1) have "unique_indexes_loop schema field elem ixs binds = Inr binds'"
      by simp
    from Cons.IH [OF this rest Cons.prems(3)] show ?thesis .
  next
    case True
    with Cons.prems(1) obtain b1 where
      a: "add_index_columns schema elem (snd ix) binds = Inr b1"
      and l: "unique_indexes_loop schema field elem ixs b1 = Inr binds'"
      by (auto split: sum.splits)
    from add_index_columns_ok [OF a sub Cons.prems(3)] have "bind_pair_ok schema (snd b1) (fst b1)" .
    from Cons.IH [OF l rest this] show ?thesis .
  qed
qed

lemma addUnique_ok:
  "addUniqueIndexFieldsToBind schema field oldBind newBind elem = Inr (oldBind', newBind') \<Longrightarrow>
   bind_pair_ok schema newBind oldBind \<Longrightarrow> bind_pair_ok schema newBind' oldBind'"
  using unique_indexes_loop_ok [of schema field elem "uniqueIndexes schema" "(oldBind, newBind)" "(oldBind', newBind')"]
  by (simp add: addUniqueIndexFieldsToBind_def)

lemma lookup_tracked_upd:
  "lookup_tracked (Some (t(ix \<mapsto> es(i \<mapsto> x)))) ix' i' =
     (if ix' = ix then (if i' = i then Some x else es i') else lookup_tracked (Some t) ix' i')"
  by (simp add: lookup_tracked_def)

lemma lookup_tracked_same:
  "lookup_tracked (Some ((case tracked of None \<Rightarrow> Map.empty | Some t \<Rightarrow> t)(ix \<mapsto> es))) ix' i' =
     (if ix' = ix then es i' else lookup_tracked tracked ix' i')"
  by (cases tracked) (simp_all add: lookup_tracked_def)

lemma entities_lookup:
  "(case (case tracked of None \<Rightarrow> Map.empty | Some t \<Rightarrow> t) ix of None \<Rightarrow> Map.empty | Some es \<Rightarrow> es) i
     = lookup_tracked tracked ix i"
  by (cases tracked) (auto simp: lookup_tracked_def split: option.splits)

lemma pair_ok_update:
  "bind_pair_ok schema newBind oldBind \<Longrightarrow> nv \<noteq> ov \<or> nv = DNil \<Longrightarrow>
   bind_pair_ok schema (newBind(field \<mapsto> nv)) (oldBind(field \<mapsto> ov))"
  by (auto simp: bind_pair_ok_def)

lemma pair_ok_single:
  "nv \<noteq> ov \<or> nv = DNil \<Longrightarrow> bind_pair_ok schema [field \<mapsto> nv] [field \<mapsto> ov]"
  by (auto simp: bind_pair_ok_def)

lemma track_edit_ok:
  assumes ok: "tracked_ok schema tracked"
    and r: "track_edit schema tracked elem field newValue oldValue = Inr (err, tracked')"
    and d: "newValue \<noteq> oldValue \<or> newValue = DNil"
  shows "tracked_ok schema tracked'"
proof -
  let ?id = "entityID schema elem"
  let ?all = "case tracked of None \<Rightarrow> Map.empty | Some t \<Rightarrow> t"
  let ?es = "case ?all (index schema) of None \<Rightarrow> Map.empty | Some es \<Rightarrow> es"
  have es: "\<And>i. ?es i = lookup_tracked tracked (index schema) i"
    by (rule entities_lookup)
  show ?thesis
  proof (cases "lookup_tracked tracked (index schema) ?id")
    case None
    with r es obtain ob nb where
      a: "addUniqueIndexFieldsToBind schema field [field \<mapsto> oldValue] [field \<mapsto> newValue] elem = Inr (ob, nb)"
      and t': "tracked' = Some (?all(index schema \<mapsto> ?es(?id \<mapsto> EditableFields elem nb ob)))"
      by (auto simp: track_edit_def Let_def split: sum.splits)
    from addUnique_ok [OF a pair_ok_single [OF d]] have "bind_pair_ok schema nb ob" .
    with ok t' es show ?thesis
      by (auto simp: tracked_ok_def lookup_tracked_same split: if_splits)
  next
    case (Some ef)
    show ?thesis
    proof (cases ef)
      case (EditableFields val newBind oldBind)
      with Some r es obtain ob nb where
        a: "addUniqueIndexFieldsToBind schema field (oldBind(field \<mapsto> oldValue)) (newBind(field \<mapsto> newValue)) elem
              = Inr (ob, nb)"
        and t': "tracked' = Some (?all(index schema \<mapsto> ?es(?id \<mapsto> EditableFields val nb ob)))"
        by (auto simp: track_edit_def Let_def split: sum.splits)
      from ok Some EditableFields have "bind_pair_ok schema newBind oldBind"
        by (auto simp: tracked_ok_def)
      from addUnique_ok [OF a pair_ok_update [OF this d]] have "bind_pair_ok schema nb ob" .
      with ok t' es show ?thesis
        by (auto simp: tracked_ok_def lookup_tracked_same split: if_splits)
    next
      case (EditableEntity val)
      with Some r es obtain val' where
        t': "tracked' = Some (?all(index schema \<mapsto> ?es(?id \<mapsto> EditableEntity val')))"
        by (auto simp: track_edit_def Let_def split: sum.splits option.splits)
      with ok es show ?thesis
        by (auto simp: tracked_ok_def lookup_tracked_same split: if_splits)
    next
      case (InsertableEntity val)
      with Some r es obtain val' where
        t': "tracked' = Some (?all(index schema \<mapsto> ?es(?id \<mapsto> InsertableEntity val')))"
        by (auto simp: track_edit_def Let_def split: sum.splits option.splits)
      with ok es show ?thesis
        by (auto simp: tracked_ok_def lookup_tracked_same split: if_splits)
    next
      case (RemovableEntity val)
      with Some r es have t': "tracked' = Some (?all(index schema \<mapsto> ?es))"
        by (auto simp: track_edit_def Let_def)
      with ok es show ?thesis
        by (auto simp: tracked_ok_def lookup_tracked_same split: if_splits)
    qed
  qed
qed

lemma editEntityField_ok:
  assumes ok: "tracked_ok schema tracked"
    and r: "editEntityField schema tracked elem field v = Inr (err, tracked')"
  shows "tracked_ok schema tracked'"
proof (cases "fieldBindSetters schema field")
  case None
  with r ok show ?thesis by (simp add: editEntityField_def)
next
  case (Some setter)
  show ?thesis
  proof (cases "setter v")
    case (Panic e)
    with Some r show ?thesis by (simp add: editEntityField_def)
  next
    case (Err e)
    with Some r ok show ?thesis by (simp add: editEntityField_def)
  next
    case (Ok newValue)
    show ?thesis
    proof (cases "fieldGetters schema field")
      case None
      with Some Ok r show ?thesis by (simp add: editEntityField_def)
    next
      case g: (Some getter)
      show ?thesis
      proof (cases "setter (getter elem)")
        case (Panic e)
        with Some Ok g r show ?thesis by (simp add: editEntityField_def)
      next
        case (Err e)
        with Some Ok g r have "track_edit schema tracked elem field newValue DNil = Inr (err, tracked')"
          by (simp add: editEntityField_def)
        from track_edit_ok [OF ok this] show ?thesis by blast
      next
        case o: (Ok oldValue)
        show ?thesis
        proof (cases "oldValue = newValue")
          case True
          with Some Ok g o r ok show ?thesis by (simp add: editEntityField_def)
        next
          case False
          with Some Ok g o r have "track_edit schema tracked elem field newValue oldValue = Inr (err, tracked')"
            by (simp add: editEntityField_def)
          from track_edit_ok [OF ok this] False show ?thesis by blast
        qed
      qed
    qed
  qed
qed

lemma edit_all_ok:
  "tracked_ok schema tracked \<Longrightarrow> edit_all schema tracked calls = Inr tracked' \<Longrightarrow> tracked_ok schema tracked'"
proof (induction calls arbitrary: tracked)
  case Nil
  then show ?case by simp
next
  case (Cons c calls)
  from Cons.prems(2) obtain r where
    e: "editEntityField schema tracked (fst c) (fst (snd c)) (snd (snd c)) = Inr r"
    and rest: "edit_all schema (snd r) calls = Inr tracked'"
    by (auto split: sum.splits)
  from editEntityField_ok [OF Cons.prems(1), of "fst c" "fst (snd c)" "snd (snd c)" "fst r" "snd r"] e
  have "tracked_ok schema (snd r)" by simp
  from Cons.IH [OF this rest] show ?case .
qed


text \<open>
  Claim C5, as stated, fails: \<open>Age\<close> and \<open>Code\<close> form a unique index, and editing \<open>Age\<close>
  from 30 to 31 puts \<open>Code\<close> into both binds with the value 500 of the entity, so the key
  \<open>Code\<close> of \<open>newBind\<close> is present in \<open>oldBind\<close> with an equal value.
\<close>

theorem unique_index_copy_counterexample:
  "editEntityField sample_schema None sample_entity ''Age'' (VUint8 31)
     = Inr (None, Some [1 \<mapsto> [7 \<mapsto> EditableFields sample_entity
                                     [''Age'' \<mapsto> DUint64 31, ''Code'' \<mapsto> DUint64 500]
                                     [''Age'' \<mapsto> DUint64 30, ''Code'' \<mapsto> DUint64 500]]])"
  by (simp add: editEntityField_def track_edit_def addUniqueIndexFieldsToBind_def sample_schema_def
      sample_entity_def createNumberFieldBindSetter_def from_uint_def bind_is_nil_def Let_def)

text \<open>
  Claim C5, amended. For every bind pair that calls of \<open>EditEntityField\<close> have built or
  extended, and every key \<open>K\<close> of \<open>newBind\<close>: \<open>K\<close> is a key of \<open>oldBind\<close> too, and when \<open>K\<close>
  is not a column of a unique index of the schema, \<open>newBind[K]\<close> differs from \<open>oldBind[K]\<close>,
  or it is nil (the case of a nil new value whose old content could not be
  canonicalised, so that the old value is nil as well). Columns of a unique index are
  copied to both binds by \<open>addUniqueIndexFieldsToBind\<close> and may be equal.
\<close>

theorem edited_binds_invariant:
  assumes "tracked_ok schema tracked"
    and "edit_all schema tracked calls = Inr tracked'"
    and "lookup_tracked tracked' (index schema) entity_id = Some (EditableFields val newBind oldBind)"
    and "newBind K = Some nv"
  shows "\<exists>ov. oldBind K = Some ov \<and> (K \<notin> unique_columns schema \<longrightarrow> nv \<noteq> ov \<or> nv = DNil)"
proof -
  from edit_all_ok [OF assms(1) assms(2)] have "tracked_ok schema tracked'" .
  with assms(3) have "bind_pair_ok schema newBind oldBind"
    by (auto simp: tracked_ok_def)
  with assms(4) show ?thesis
    by (auto simp: bind_pair_ok_def)
qed

theorem edited_binds_invariant_witness:
  "edit_all sample_schema None
       [(sample_entity, ''Score'', VUint8 2), (sample_entity, ''Score'', VString ''3'')]
     = Inr (Some [1 \<mapsto> [7 \<mapsto> EditableFields sample_entity [''Score'' \<mapsto> DUint64 3] [''Score'' \<mapsto> DUint64 1]]])
   \<and> (\<exists>ov. [''Score'' \<mapsto> DUint64 1] ''Score'' = Some ov
          \<and> (''Score'' \<notin> unique_columns sample_schema \<longrightarrow> DUint64 3 \<noteq> ov \<or> DUint64 3 = DNil))"
proof -
  have a: "tracked_ok sample_schema None"
    by (simp add: tracked_ok_def lookup_tracked_def)
  have b: "edit_all sample_schema None
       [(sample_entity, ''Score'', VUint8 2), (sample_entity, ''Score'', VString ''3'')]
     = Inr (Some [1 \<mapsto> [7 \<mapsto> EditableFields sample_entity [''Score'' \<mapsto> DUint64 3] [''Score'' \<mapsto> DUint64 1]]])"
    by (simp add: editEntityField_def track_edit_def addUniqueIndexFieldsToBind_def sample_schema_def
        sample_entity_def createNumberFieldBindSetter_def from_uint_def bind_is_nil_def Let_def
        ParseUint_def is_digit_def digits_value_def)
  have c: "lookup_tracked
       (Some [1 \<mapsto> [7 \<mapsto> EditableFields sample_entity [''Score'' \<mapsto> DUint64 3] [''Score'' \<mapsto> DUint64 1]]])
       (index sample_schema) 7
     = Some (EditableFields sample_entity [''Score'' \<mapsto> DUint64 3] [''Score'' \<mapsto> DUint64 1])"
    by (simp add: lookup_tracked_def sample_schema_def)
  have d: "[''Score'' \<mapsto> DUint64 3] ''Score'' = Some (DUint64 3)"
    by simp
  from edited_binds_invariant [OF a b c d] b show ?thesis by blast
qed

section \<open>The number setter on unsigned columns\<close>

lemma sint_scast_64: "LENGTH('a::len) \<le> 64 \<Longrightarrow> sint (scast (x :: 'a word) :: 64 word) = sint x"
  by (rule sint_up_scast) (simp add: is_up)

lemma uint_ucast_64: "LENGTH('a::len) \<le> 64 \<Longrightarrow> uint (ucast (x :: 'a word) :: 64 word) = uint x"
  by (rule uint_up_ucast) (simp add: is_up)

lemma sint_nonneg_uint: "0 \<le> sint (x :: 64 word) \<Longrightarrow> uint x = sint x"
proof -
  assume a: "0 \<le> sint x"
  have "sint x < 2 ^ 63"
    using sint_lt [of x] by simp
  then have "sint x < 2 ^ 64" by simp
  with a have "take_bit 64 (sint x) = sint x"
    by (simp add: take_bit_int_eq_self)
  then show ?thesis
    using uint_sint [of x] by simp
qed

lemma word_less_uint: "(a :: 64 word) < b \<longleftrightarrow> uint a < uint b"
  by (simp add: word_less_def)

lemma unsigned_setter_numbers:
  "(number_input lib v = Some n \<and> n < 0 \<longrightarrow>
      createNumberFieldBindSetter lib columnName True nullable min_v max_v v
        = Err (BindError columnName (''negative number '' @ sprintf_d lib v @ '' not allowed'')))
   \<and> (number_input lib v = Some n \<and> uint max_v < n \<longrightarrow>
      createNumberFieldBindSetter lib columnName True nullable min_v max_v v
        = Err (BindError columnName (''value '' @ sprintf_d lib v @ '' exceeded max allowed value'')))"
  apply (cases v)
  apply (auto simp: number_input_def createNumberFieldBindSetter_def from_uint_def from_int_def
      from_uint_ptr_def from_int_ptr_def sint_scast_64 uint_ucast_64 sint_nonneg_uint word_less_uint
      Let_def split: option.splits)
  apply (insert uint_ge_0 [of max_v], linarith+)
  done

lemma unsigned_setter_strings:
  "(ParseUint s = None \<longrightarrow>
      createNumberFieldBindSetter lib columnName True nullable min_v max_v (VString s)
        = Err (BindError columnName (''invalid number '' @ s)))
   \<and> (ParseUint s = Some u \<and> max_v < u \<longrightarrow>
      createNumberFieldBindSetter lib columnName True nullable min_v max_v (VString s)
        = Err (BindError columnName (''value '' @ sprintf_d lib (VString s) @ '' exceeded max allowed value'')))"
  by (simp add: createNumberFieldBindSetter_def Let_def)

lemma unsigned_setter_nil:
  "nil_number_input v \<Longrightarrow> \<not> nullable \<Longrightarrow>
     createNumberFieldBindSetter lib columnName unsigned_col nullable min_v max_v v
       = Err (BindError columnName ''nil is not allowed'')"
  by (auto simp: nil_number_input_def createNumberFieldBindSetter_def from_uint_ptr_def from_int_ptr_def)

text \<open>
  Claim C6, as stated, fails: on an unsigned column the negative input \<open>"-5"\<close>, a string,
  is rejected by \<open>strconv.ParseUint\<close>, and the message is "invalid number -5", not
  "negative number -5 not allowed".
\<close>

theorem negative_string_counterexample:
  "createNumberFieldBindSetter sample_lib ''Age'' True False 0 255 (VString ''-5'')
     = Err (BindError ''Age'' ''invalid number -5'')"
  by (simp add: createNumberFieldBindSetter_def ParseUint_def is_digit_def)

text \<open>
  Claim C6, amended. On an unsigned column: an input of a fixed-width integer type, a
  non-nil pointer to one, or a float read through \<open>int64(x)\<close>, fails with "negative number
  N not allowed" when it is negative and with "value N exceeded max allowed value" when
  it is above \<open>max\<close>, \<open>N\<close> being the input under \<open>%d\<close>; a string that \<open>ParseUint\<close> rejects (a
  negative decimal among them) fails with "invalid number" and the string; a string that
  parses to more than \<open>max\<close> fails with the max message; nil, as the nil interface or a
  nil pointer of a type in the switch, fails with "nil is not allowed" when the column
  is not nullable.
\<close>

theorem unsigned_setter_rejections:
  "(number_input lib v = Some n \<and> n < 0 \<longrightarrow>
      createNumberFieldBindSetter lib columnName True nullable min_v max_v v
        = Err (BindError columnName (''negative number '' @ sprintf_d lib v @ '' not allowed'')))
   \<and> (number_input lib v = Some n \<and> uint max_v < n \<longrightarrow>
      createNumberFieldBindSetter lib columnName True nullable min_v max_v v
        = Err (BindError columnName (''value '' @ sprintf_d lib v @ '' exceeded max allowed value'')))
   \<and> (v = VString s \<and> ParseUint s = None \<longrightarrow>
      createNumberFieldBindSetter lib columnName True nullable min_v max_v v
        = Err (BindError columnName (''invalid number '' @ s)))
   \<and> (v = VString s \<and> ParseUint s = Some u \<and> max_v < u \<longrightarrow>
      createNumberFieldBindSetter lib columnName True nullable min_v max_v v
        = Err (BindError columnName (''value '' @ sprintf_d lib v @ '' exceeded max allowed value'')))
   \<and> (nil_number_input v \<and> \<not> nullable \<longrightarrow>
      createNumberFieldBindSetter lib columnName True nullable min_v max_v v
        = Err (BindError columnName ''nil is not allowed''))"
  using unsigned_setter_numbers [of lib v n columnName nullable min_v max_v]
    unsigned_setter_strings [of s lib columnName nullable min_v max_v u]
    unsigned_setter_nil [of v nullable lib columnName True min_v max_v]
  by blast

theorem unsigned_setter_rejections_witness:
  "createNumberFieldBindSetter sample_lib ''Age'' True False 0 255 (VInt8 (- 5))
     = Err (BindError ''Age'' ''negative number -5 not allowed'')
   \<and> createNumberFieldBindSetter sample_lib ''Age'' True False 0 255 (VUint16 300)
     = Err (BindError ''Age'' ''value 300 exceeded max allowed value'')
   \<and> createNumberFieldBindSetter sample_lib ''Age'' True False 0 255 (VString ''-5'')
     = Err (BindError ''Age'' ''invalid number -5'')
   \<and> createNumberFieldBindSetter sample_lib ''Age'' True False 0 255 (VString ''300'')
     = Err (BindError ''Age'' ''value %!d(string=300) exceeded max allowed value'')
   \<and> createNumberFieldBindSetter sample_lib ''Age'' True False 0 255 (VInt64Ptr None)
     = Err (BindError ''Age'' ''nil is not allowed'')"
proof -
  have a: "number_input sample_lib (VInt8 (- 5)) = Some (- 5) \<and> (- 5 :: int) < 0"
    by (simp add: number_input_def)
  have b: "number_input sample_lib (VUint16 300) = Some 300 \<and> uint (255 :: 64 word) < 300"
    by (simp add: number_input_def)
  have c: "ParseUint ''-5'' = None"
    by (simp add: ParseUint_def is_digit_def)
  have d: "ParseUint ''300'' = Some 300 \<and> (255 :: 64 word) < 300"
    by (simp add: ParseUint_def is_digit_def digits_value_def)
  have e: "nil_number_input (VInt64Ptr None :: (int, string \<times> string) goval)"
    by (simp add: nil_number_input_def)
  have p: "sprintf_d sample_lib (VInt8 (- 5)) = ''-5''"
    "sprintf_d sample_lib (VUint16 300) = ''300''"
    "sprintf_d sample_lib (VString ''300'') = ''%!d(string=300)''"
    by (simp_all add: sample_lib_def sample_sprintf_d_def signed_decimal_def)
  show ?thesis
    using unsigned_setter_rejections [of sample_lib "VInt8 (- 5)" "- 5" "''Age''" False 0 255 "''x''" 0] a
      unsigned_setter_rejections [of sample_lib "VUint16 300" 300 "''Age''" False 0 255 "''x''" 0] b
      unsigned_setter_rejections [of sample_lib "VString ''-5''" 0 "''Age''" False 0 255 "''-5''" 0] c
      unsigned_setter_rejections [of sample_lib "VString ''300''" 0 "''Age''" False 0 255 "''300''" 300] d
      unsigned_setter_rejections [of sample_lib "VInt64Ptr None" 0 "''Age''" False 0 255 "''x''" 0] e
    by (simp add: p)
qed

section \<open>The date setter and its round trip\<close>




section \<open>The search indexer loop\<close>

lemma indexer_loop_bound:
  "indexer_loop Indexer name redisPool s cur calls = Inr (s', k, cur', calls') \<Longrightarrow>
     k = None \<and> cur \<le> cur' \<and> calls' \<le> calls + (2 ^ 64 - unat cur)"
proof (induction Indexer name redisPool s cur calls rule: indexer_loop.induct)
  case (1 Indexer name redisPool s cur calls)
  have lt: "unat cur < 2 ^ 64"
    using unsigned_less [of cur, where ?'a = nat] by simp
  show ?case
  proof (cases Indexer)
    case None
    with "1.prems" show ?thesis by (simp add: indexer_loop.simps [of None])
  next
    case (Some f)
    let ?r = "f (fst s) cur"
    show ?thesis
    proof (cases "snd (fst ?r)")
      case False
      with Some "1.prems" lt show ?thesis
        by (auto simp: indexer_loop.simps [of "Some f" name redisPool s cur calls] Let_def)
    next
      case True
      show ?thesis
      proof (cases "fst (fst ?r) \<le> cur")
        case le: True
        with Some True "1.prems" show ?thesis
          by (simp add: indexer_loop.simps [of "Some f" name redisPool s cur calls] Let_def)
      next
        case gt: False
        then have g: "unat cur < unat (fst (fst ?r))"
          by (simp add: not_le word_less_nat_alt)
        have lt2: "unat (fst (fst ?r)) < 2 ^ 64"
          using unsigned_less [of "fst (fst ?r)", where ?'a = nat] by simp
        from Some True gt "1.prems" have rec:
          "indexer_loop Indexer name redisPool (snd ?r, Some (fst (fst ?r))) (fst (fst ?r)) (Suc calls)
             = Inr (s', k, cur', calls')"
          by (simp add: indexer_loop.simps [of "Some f" name redisPool s cur calls] Let_def)
        have nn: "\<not> \<not> snd (fst ?r)"
          using True by simp
        from "1.IH" [OF Some refl refl refl nn gt rec]
        have "k = None" and "fst (fst ?r) \<le> cur'"
          and "calls' \<le> Suc calls + (2 ^ 64 - unat (fst (fst ?r)))"
          by simp_all
        moreover have "cur \<le> fst (fst ?r)"
          using gt by simp
        ultimately show ?thesis
          using g lt2 by auto
      qed
    qed
  qed
qed

text \<open>
  Claim C8, as stated, fails: an indexer whose last answer, the one with no more work,
  carries a next id below the cursor (3 at cursor 10) does not make the consumer panic;
  the loop ends normally after three calls.
\<close>

theorem late_low_cursor_counterexample:
  "run_indexer (Some (\<lambda>s cur. if cur < 10 then ((cur + 5, True), s) else ((3, False), s)))
      ''products'' ''default'' ((), None)
     = Inr ((), None, 10, 3)"
  by (simp add: run_indexer_def Let_def)

text \<open>
  Claim C8, amended. When the indexer reports more work together with a next id that is
  less than or equal to the cursor, the consumer panics with "loop detected"; an answer
  with no more work ends the loop whatever its next id is. An iteration that continues
  does so with a strictly greater cursor, so the loop ends for every indexer: when it
  returns, the key is deleted, the cursor has not gone down, and the indexer was called
  at most \<open>2^64 - cur\<close> times.
\<close>

theorem indexer_loop_detected:
  "(Indexer = Some f \<and> snd (fst (f (fst s) cur)) \<and> fst (fst (f (fst s) cur)) \<le> cur \<longrightarrow>
      indexer_loop Indexer name redisPool s cur calls
        = Inl (Errorf (''loop detected in indxer for index '' @ name @ '' in pool '' @ redisPool)))
   \<and> (Indexer = Some f \<and> \<not> snd (fst (f (fst s) cur)) \<longrightarrow>
      indexer_loop Indexer name redisPool s cur calls = Inr (snd (f (fst s) cur), None, cur, Suc calls))
   \<and> (Indexer = Some f \<and> snd (fst (f (fst s) cur)) \<and> \<not> fst (fst (f (fst s) cur)) \<le> cur \<longrightarrow>
      cur < fst (fst (f (fst s) cur))
      \<and> indexer_loop Indexer name redisPool s cur calls
          = indexer_loop Indexer name redisPool
              (snd (f (fst s) cur), Some (fst (fst (f (fst s) cur)))) (fst (fst (f (fst s) cur))) (Suc calls))
   \<and> (indexer_loop Indexer name redisPool s cur calls = Inr (s', k, cur', calls') \<longrightarrow>
      k = None \<and> cur \<le> cur' \<and> calls' \<le> calls + (2 ^ 64 - unat cur))"
  using indexer_loop_bound [of Indexer name redisPool s cur calls s' k cur' calls']
  by (auto simp: indexer_loop.simps [of "Some f" name redisPool s cur calls] Let_def)

theorem indexer_loop_detected_witness:
  "indexer_loop (Some (\<lambda>s cur. if cur < 10 then ((cur + 5, True), s)
                               else if cur = 10 then ((3, False), s) else ((7, True), s)))
      ''products'' ''default'' ((), None) 11 0
     = Inl (Errorf ''loop detected in indxer for index products in pool default'')
   \<and> indexer_loop (Some (\<lambda>s cur. if cur < 10 then ((cur + 5, True), s)
                               else if cur = 10 then ((3, False), s) else ((7, True), s)))
      ''products'' ''default'' ((), Some 10) 10 2
     = Inr ((), None, 10, 3)
   \<and> indexer_loop (Some (\<lambda>s cur. if cur < 10 then ((cur + 5, True), s)
                               else if cur = 10 then ((3, False), s) else ((7, True), s)))
      ''products'' ''default'' ((), None) 0 0
     = indexer_loop (Some (\<lambda>s cur. if cur < 10 then ((cur + 5, True), s)
                               else if cur = 10 then ((3, False), s) else ((7, True), s)))
      ''products'' ''default'' ((), Some 5) 5 1
   \<and> (3 :: nat) \<le> 2 + (2 ^ 64 - unat (10 :: 64 word))"
proof -
  let ?f = "\<lambda>(s :: unit) (cur :: 64 word). if cur < 10 then ((cur + 5, True), s)
                               else if cur = 10 then ((3, False), s) else ((7, True), s)"
  note a = indexer_loop_detected [of "Some ?f" ?f "((), None)" 11 "''products''" "''default''" 0 "()" None 0 0]
  note b = indexer_loop_detected [of "Some ?f" ?f "((), Some 10)" 10 "''products''" "''default''" 2 "()" None 10 3]
  note c = indexer_loop_detected [of "Some ?f" ?f "((), None)" 0 "''products''" "''default''" 0 "()" None 0 0]
  from a have 1: "indexer_loop (Some ?f) ''products'' ''default'' ((), None) 11 0
     = Inl (Errorf ''loop detected in indxer for index products in pool default'')"
    by simp
  from b have 2: "indexer_loop (Some ?f) ''products'' ''default'' ((), Some 10) 10 2 = Inr ((), None, 10, 3)"
    by simp
  from c have 3: "indexer_loop (Some ?f) ''products'' ''default'' ((), None) 0 0
     = indexer_loop (Some ?f) ''products'' ''default'' ((), Some 5) 5 1"
    by simp
  from b 2 have 4: "(3 :: nat) \<le> 2 + (2 ^ 64 - unat (10 :: 64 word))"
    by simp
  from 1 2 3 4 show ?thesis by simp
qed

section \<open>The track limit\<close>

lemma Track_within:
  "trackedEntitiesCounter f + int (length es) \<le> 10000 \<Longrightarrow>
   Track f es = Inr (f\<lparr>trackedEntities := trackedEntities f @ es,
                       trackedEntitiesCounter := trackedEntitiesCounter f + int (length es)\<rparr>)"
proof (induction es arbitrary: f)
  case Nil
  then show ?case by simp
next
  case (Cons e es)
  let ?f2 = "f\<lparr>trackedEntities := trackedEntities f @ [e],
                trackedEntitiesCounter := trackedEntitiesCounter f + 1\<rparr>"
  have "trackedEntitiesCounter ?f2 + int (length es) \<le> 10000"
    using Cons.prems by simp
  from Cons.IH [OF this] Cons.prems show ?case
    by (simp add: Let_def)
qed

lemma Track_reaches_limit:
  "trackedEntitiesCounter f \<le> 10000 \<Longrightarrow> 10001 \<le> trackedEntitiesCounter f + int (length es) \<Longrightarrow>
   Track f es = Inl (Errorf ''track limit 10000 exceeded'',
     f\<lparr>trackedEntities := trackedEntities f @ take (nat (10001 - trackedEntitiesCounter f)) es,
       trackedEntitiesCounter := 10001\<rparr>)"
proof (induction es arbitrary: f)
  case Nil
  then show ?case by simp
next
  case (Cons e es)
  let ?f2 = "f\<lparr>trackedEntities := trackedEntities f @ [e],
                trackedEntitiesCounter := trackedEntitiesCounter f + 1\<rparr>"
  show ?case
  proof (cases "trackedEntitiesCounter f = 10000")
    case True
    then show ?thesis by (simp add: Let_def)
  next
    case False
    then have a: "trackedEntitiesCounter ?f2 \<le> 10000"
      and b: "10001 \<le> trackedEntitiesCounter ?f2 + int (length es)"
      using Cons.prems by simp_all
    have t: "take (nat (10001 - trackedEntitiesCounter f)) (e # es)
              = e # take (nat (10001 - (trackedEntitiesCounter f + 1))) es"
    proof -
      have "nat (10001 - trackedEntitiesCounter f) = Suc (nat (10001 - (trackedEntitiesCounter f + 1)))"
        using Cons.prems False by arith
      then show ?thesis by simp
    qed
    from Cons.IH [OF a b] False t show ?thesis
      by (simp add: Let_def)
  qed
qed

lemma Track_past_limit:
  "10001 \<le> trackedEntitiesCounter f \<Longrightarrow>
   Track f es = Inr (f\<lparr>trackedEntities := trackedEntities f @ es,
                       trackedEntitiesCounter := trackedEntitiesCounter f + int (length es)\<rparr>)"
proof (induction es arbitrary: f)
  case Nil
  then show ?case by simp
next
  case (Cons e es)
  let ?f2 = "f\<lparr>trackedEntities := trackedEntities f @ [e],
                trackedEntitiesCounter := trackedEntitiesCounter f + 1\<rparr>"
  have "10001 \<le> trackedEntitiesCounter ?f2"
    using Cons.prems by simp
  from Cons.IH [OF this] Cons.prems show ?case
    by (simp add: Let_def)
qed


lemma run_call_Inr:
  "Track (snd sf) (call_entities c) = Inr f' \<Longrightarrow> \<exists>s'. run_call md mf sf c = Inr (s', f')"
  by (cases c) (simp_all add: Delete_def ForceDelete_def Let_def)

lemma run_call_Inl:
  "Track (snd sf) (call_entities c) = Inl (e, f') \<Longrightarrow> \<exists>s'. run_call md mf sf c = Inl (e, (s', f'))"
  by (cases c) (simp_all add: Delete_def ForceDelete_def Let_def)

lemma run_calls_within:
  "trackedEntitiesCounter (snd sf) + int (length (concat (map call_entities cs))) \<le> 10000 \<Longrightarrow>
   \<exists>s'. run_calls md mf sf cs =
      Inr (s', (snd sf)\<lparr>trackedEntities := trackedEntities (snd sf) @ concat (map call_entities cs),
                 trackedEntitiesCounter :=
                   trackedEntitiesCounter (snd sf) + int (length (concat (map call_entities cs)))\<rparr>)"
proof (induction cs arbitrary: sf)
  case Nil
  show ?case by (cases sf) simp
next
  case (Cons c cs)
  let ?f1 = "(snd sf)\<lparr>trackedEntities := trackedEntities (snd sf) @ call_entities c,
               trackedEntitiesCounter := trackedEntitiesCounter (snd sf) + int (length (call_entities c))\<rparr>"
  have "trackedEntitiesCounter (snd sf) + int (length (call_entities c)) \<le> 10000"
    using Cons.prems by simp
  then have "Track (snd sf) (call_entities c) = Inr ?f1"
    by (rule Track_within)
  then obtain s1 where s1: "run_call md mf sf c = Inr (s1, ?f1)"
    using run_call_Inr by blast
  have "trackedEntitiesCounter (snd (s1, ?f1)) + int (length (concat (map call_entities cs))) \<le> 10000"
    using Cons.prems by simp
  from Cons.IH [OF this] obtain s' where
    "run_calls md mf (s1, ?f1) cs =
       Inr (s', (snd (s1, ?f1))\<lparr>trackedEntities := trackedEntities (snd (s1, ?f1)) @ concat (map call_entities cs),
                 trackedEntitiesCounter :=
                   trackedEntitiesCounter (snd (s1, ?f1)) + int (length (concat (map call_entities cs)))\<rparr>)"
    by blast
  with s1 show ?case by (simp add: add.assoc)
qed

lemma run_calls_append:
  "run_calls md mf sf (xs @ ys) =
     (case run_calls md mf sf xs of Inl p \<Rightarrow> Inl p | Inr sf' \<Rightarrow> run_calls md mf sf' ys)"
  by (induction xs arbitrary: sf) (auto split: sum.splits)

text \<open>
  Claim C9. On one flusher, calls of \<open>Track\<close>, \<open>Delete\<close> and \<open>ForceDelete\<close> do not panic
  while the counter stays at most 10000: the calls \<open>cs1\<close> return, the counter has grown by
  the number of their entities and the entities are tracked in order. The next call
  panics with "track limit 10000 exceeded" when it makes the counter reach 10001, the
  counter is 10001 at the panic, and no later call of the sequence runs.
\<close>

theorem track_limit_10000:
  assumes "trackedEntitiesCounter (snd sf) + int (length (concat (map call_entities cs1))) \<le> 10000"
  shows "\<exists>sf1. run_calls md mf sf cs1 = Inr sf1
           \<and> trackedEntitiesCounter (snd sf1) =
               trackedEntitiesCounter (snd sf) + int (length (concat (map call_entities cs1)))
           \<and> trackedEntities (snd sf1) = trackedEntities (snd sf) @ concat (map call_entities cs1)
           \<and> (10001 \<le> trackedEntitiesCounter (snd sf1) + int (length (call_entities call)) \<longrightarrow>
                (\<exists>p. run_call md mf sf1 call = Inl (Errorf ''track limit 10000 exceeded'', p)
                   \<and> trackedEntitiesCounter (snd p) = 10001
                   \<and> run_calls md mf sf (cs1 @ call # cs2) = Inl (Errorf ''track limit 10000 exceeded'', p)))"
proof -
  from run_calls_within [OF assms] obtain s1 where
    r1: "run_calls md mf sf cs1 =
      Inr (s1, (snd sf)\<lparr>trackedEntities := trackedEntities (snd sf) @ concat (map call_entities cs1),
                 trackedEntitiesCounter :=
                   trackedEntitiesCounter (snd sf) + int (length (concat (map call_entities cs1)))\<rparr>)"
    (is "_ = Inr (s1, ?f1)")
    by blast
  have "10001 \<le> trackedEntitiesCounter ?f1 + int (length (call_entities call)) \<longrightarrow>
        (\<exists>p. run_call md mf (s1, ?f1) call = Inl (Errorf ''track limit 10000 exceeded'', p)
           \<and> trackedEntitiesCounter (snd p) = 10001
           \<and> run_calls md mf sf (cs1 @ call # cs2) = Inl (Errorf ''track limit 10000 exceeded'', p))"
  proof
    assume lim: "10001 \<le> trackedEntitiesCounter ?f1 + int (length (call_entities call))"
    have le: "trackedEntitiesCounter ?f1 \<le> 10000"
      using assms by simp
    from Track_reaches_limit [OF le lim] obtain f2 where
      t: "Track (snd (s1, ?f1)) (call_entities call) = Inl (Errorf ''track limit 10000 exceeded'', f2)"
      and c2: "trackedEntitiesCounter f2 = 10001"
      by simp
    from run_call_Inl [OF t] obtain s2 where
      "run_call md mf (s1, ?f1) call = Inl (Errorf ''track limit 10000 exceeded'', (s2, f2))"
      by blast
    with r1 c2 show "\<exists>p. run_call md mf (s1, ?f1) call = Inl (Errorf ''track limit 10000 exceeded'', p)
           \<and> trackedEntitiesCounter (snd p) = 10001
           \<and> run_calls md mf sf (cs1 @ call # cs2) = Inl (Errorf ''track limit 10000 exceeded'', p)"
      by (simp add: run_calls_append)
  qed
  with r1 show ?thesis by simp
qed

theorem track_limit_10000_witness:
  "\<exists>p. run_calls (\<lambda>e s. s) (\<lambda>e s. s) ((), NewFlusher)
          ([CallTrack [1::nat, 2]] @ CallDelete (replicate 9999 3) # [CallForceDelete [4]])
        = Inl (Errorf ''track limit 10000 exceeded'', p)
      \<and> trackedEntitiesCounter (snd p) = 10001"
  using track_limit_10000 [where sf = "((), NewFlusher)" and ?cs1.0 = "[CallTrack [1::nat, 2]]"
      and call = "CallDelete (replicate 9999 3)" and md = "\<lambda>e s. s" and mf = "\<lambda>e s. s"
      and ?cs2.0 = "[CallForceDelete [4]]"]
  by (auto simp: NewFlusher_def)

section \<open>Editing a field to the value it has\<close>

lemma unique_indexes_loop_skip:
  "field \<notin> unique_columns schema \<Longrightarrow> set ixs \<subseteq> set (uniqueIndexes schema) \<Longrightarrow>
   unique_indexes_loop schema field elem ixs binds = Inr binds"
  by (induction ixs) (auto simp: unique_columns_def)

lemma track_edit_new_entry:
  assumes "lookup_tracked tracked (index schema) (entityID schema elem) = None"
    and "field \<notin> unique_columns schema"
  shows "\<exists>tracked'. track_edit schema tracked elem field newValue oldValue = Inr (None, tracked')
           \<and> lookup_tracked tracked' (index schema) (entityID schema elem)
               = Some (EditableFields elem [field \<mapsto> newValue] [field \<mapsto> oldValue])"
proof -
  have "(case (case tracked of None \<Rightarrow> Map.empty | Some t \<Rightarrow> t) (index schema) of
           None \<Rightarrow> Map.empty | Some es \<Rightarrow> es) (entityID schema elem) = None"
    using assms(1) by (cases tracked) (auto simp: lookup_tracked_def split: option.splits)
  moreover have "addUniqueIndexFieldsToBind schema field [field \<mapsto> oldValue] [field \<mapsto> newValue] elem
                   = Inr ([field \<mapsto> oldValue], [field \<mapsto> newValue])"
    using unique_indexes_loop_skip [OF assms(2), of "uniqueIndexes schema"]
    by (simp add: addUniqueIndexFieldsToBind_def)
  ultimately show ?thesis
    by (simp add: track_edit_def Let_def lookup_tracked_def)
qed

text \<open>
  Claim C10. When the field has a bind setter and a getter and the setter accepts the
  supplied value: if the setter maps the entity's current field content to the same
  canonical value, \<open>EditEntityField\<close> returns nil and the tracked entities are unchanged;
  if the setter fails on the current content, the error is dropped and the edit goes on
  as with a nil old value, and for an entity not yet tracked and a field outside the
  unique indexes the entity is then tracked with the new value in \<open>newBind\<close> and nil in
  \<open>oldBind\<close>.
\<close>

theorem edit_same_value_noop:
  assumes "fieldBindSetters schema field = Some setter"
    and "setter v = Ok newValue"
    and "fieldGetters schema field = Some getter"
  shows "(setter (getter elem) = Ok newValue \<longrightarrow>
            editEntityField schema tracked elem field v = Inr (None, tracked))
       \<and> (setter (getter elem) = Err err \<longrightarrow>
            editEntityField schema tracked elem field v = track_edit schema tracked elem field newValue DNil)
       \<and> (setter (getter elem) = Err err
            \<and> lookup_tracked tracked (index schema) (entityID schema elem) = None
            \<and> field \<notin> unique_columns schema \<longrightarrow>
            (\<exists>tracked'. editEntityField schema tracked elem field v = Inr (None, tracked')
               \<and> lookup_tracked tracked' (index schema) (entityID schema elem)
                   = Some (EditableFields elem [field \<mapsto> newValue] [field \<mapsto> DNil])))"
  using assms track_edit_new_entry [of tracked schema elem field newValue DNil]
  by (auto simp: editEntityField_def)

theorem edit_same_value_noop_witness:
  "editEntityField sample_schema None sample_entity ''Score'' (VString ''1'') = Inr (None, None)
   \<and> (\<exists>tracked'. editEntityField sample_schema None sample_entity ''SeenAt'' (VString ''2022-02-04'')
                     = Inr (None, tracked')
          \<and> lookup_tracked tracked' (index sample_schema) (entityID sample_schema sample_entity)
              = Some (EditableFields sample_entity [''SeenAt'' \<mapsto> DString ''2022-02-04''] [''SeenAt'' \<mapsto> DNil]))"
proof -
  have s1: "fieldBindSetters sample_schema ''Score''
              = Some (createNumberFieldBindSetter sample_lib ''Score'' True False 0 255)"
    and g1: "fieldGetters sample_schema ''Score'' = Some (\<lambda>elem. elem ''Score'')"
    and s2: "fieldBindSetters sample_schema ''SeenAt''
              = Some (createDateFieldBindSetter sample_lib ''SeenAt'' ''2006-01-02'' True)"
    and g2: "fieldGetters sample_schema ''SeenAt'' = Some (\<lambda>elem. elem ''SeenAt'')"
    by (simp_all add: sample_schema_def)
  have n1: "createNumberFieldBindSetter sample_lib ''Score'' True False 0 255 (VString ''1'') = Ok (DUint64 1)"
    by (simp add: createNumberFieldBindSetter_def ParseUint_def is_digit_def digits_value_def)
  have o1: "createNumberFieldBindSetter sample_lib ''Score'' True False 0 255 (sample_entity ''Score'')
              = Ok (DUint64 1)"
    by (simp add: createNumberFieldBindSetter_def sample_entity_def from_uint_def)
  have n2: "createDateFieldBindSetter sample_lib ''SeenAt'' ''2006-01-02'' True (VString ''2022-02-04'')
              = Ok (DString ''2022-02-04'')"
    by (simp add: createDateFieldBindSetter_def sample_lib_def)
  have o2: "createDateFieldBindSetter sample_lib ''SeenAt'' ''2006-01-02'' True (sample_entity ''SeenAt'')
              = Err (BindError ''SeenAt'' ''time must be in UTC location'')"
    by (simp add: createDateFieldBindSetter_def sample_lib_def sample_entity_def)
  have l: "lookup_tracked None (index sample_schema) (entityID sample_schema sample_entity) = None"
    by (simp add: lookup_tracked_def)
  have u: "''SeenAt'' \<notin> unique_columns sample_schema"
    by (simp add: unique_columns_def sample_schema_def)
  from edit_same_value_noop [OF s1 n1 g1, where elem = sample_entity and tracked = None] o1
  have "editEntityField sample_schema None sample_entity ''Score'' (VString ''1'') = Inr (None, None)"
    by simp
  moreover from edit_same_value_noop [OF s2 n2 g2, where elem = sample_entity and tracked = None
      and err = "BindError ''SeenAt'' ''time must be in UTC location''"]
    o2 l u
  have "\<exists>tracked'. editEntityField sample_schema None sample_entity ''SeenAt'' (VString ''2022-02-04'')
                     = Inr (None, tracked')
          \<and> lookup_tracked tracked' (index sample_schema) (entityID sample_schema sample_entity)
              = Some (EditableFields sample_entity [''SeenAt'' \<mapsto> DString ''2022-02-04''] [''SeenAt'' \<mapsto> DNil])"
    by blast
  ultimately show ?thesis by simp
qed

end
